theory Spec2Isabelle
  imports Main
begin

section \<open>Bounded-cost LZ parsing on an annotated suffix tree (greedier\_BATLZ.c)\<close>

text \<open>
  The development embeds the functions of \<^verbatim>\<open>greedier_BATLZ.c\<close> as HOL functions.

  \<^item> Pointers to \<^verbatim>\<open>NODE\<close> are indices into an arena (the list \<open>nodes\<close>); index 0 is the
    null pointer. Dereferencing null or an index outside the arena is the error \<open>Fault\<close>.
  \<^item> Arrays are lists; an access outside the allocated range, or a read of an array cell
    that was allocated but never written, is \<open>Fault\<close>.
  \<^item> \<^verbatim>\<open>exit(c)\<close> is the error \<open>Exit c\<close>.
  \<^item> Loops that follow pointers (sibling lists, father chains, the descent of a search)
    take a fuel argument and return \<open>OutOfFuel\<close> when it is used up; loops over indices
    are total functions.
  \<^item> \<^verbatim>\<open>unsigned int\<close> and \<^verbatim>\<open>DBL_WORD\<close> values are natural numbers. The model agrees
    with the machine arithmetic as long as every value stays below \<open>2^32\<close>, which is the
    case for texts whose length fits the source's \<^verbatim>\<open>unsigned int\<close> indices. The value
    \<^verbatim>\<open>-1\<close> stored in an unsigned annotation field is \<open>UNSET = 2^32 - 1\<close>.
  \<^item> Bytes (\<^verbatim>\<open>unsigned char\<close>) are natural numbers; the source only compares them for
    equality and prints them.
\<close>

subsection \<open>Errors and memory accesses\<close>

datatype err = Exit nat | Fault | OutOfFuel

definition ebind :: "err + 'a \<Rightarrow> ('a \<Rightarrow> err + 'b) \<Rightarrow> err + 'b" where
  "ebind m f = (case m of Inl x \<Rightarrow> Inl x | Inr a \<Rightarrow> f a)"

definition rd :: "'a list \<Rightarrow> nat \<Rightarrow> err + 'a" where
  "rd xs i = (if i < length xs then Inr (xs ! i) else Inl Fault)"

definition wr :: "'a list \<Rightarrow> nat \<Rightarrow> 'a \<Rightarrow> err + 'a list" where
  "wr xs i v = (if i < length xs then Inr (xs[i := v]) else Inl Fault)"

text \<open>Arrays that \<^verbatim>\<open>malloc\<close> returns without initialisation hold \<open>None\<close> in every cell.\<close>

definition rd_init :: "'a option list \<Rightarrow> nat \<Rightarrow> err + 'a" where
  "rd_init xs i =
     (if i < length xs then (case xs ! i of None \<Rightarrow> Inl Fault | Some v \<Rightarrow> Inr v)
      else Inl Fault)"

subsection \<open>Data model\<close>

type_synonym byte = nat

definition UNSET :: nat where
  "UNSET = 4294967295"

text \<open>
  The header \<^verbatim>\<open>suffix_tree.h\<close> is not part of the sources. The records below list the
  fields that \<^verbatim>\<open>greedier_BATLZ.c\<close> reads and writes, under the names it uses. The
  annotation fields are unsigned (the source stores \<^verbatim>\<open>-1\<close> in them as "unset" and
  compares them with \<^verbatim>\<open><\<close> as "plus infinity"); \<^verbatim>\<open>D\<close> is an array of \<^verbatim>\<open>int\<close>.
\<close>

record annotation =
  minMax :: nat
  textPos :: nat
  optimisticMinMax :: nat
  optimisticTextPos :: nat

record NODE =
  sons :: nat
  right_sibling :: nat
  left_sibling :: nat
  suffix_link :: nat
  father :: nat
  path_position :: nat
  edge_label_start :: nat
  edge_label_end :: nat
  strDepth :: nat
  annot :: annotation

record MATCH =
  mlength :: nat
  mpos :: nat

text \<open>
  \<open>tree_string\<close> is the buffer \<^verbatim>\<open>str\<close> itself; the source's pointer
  \<^verbatim>\<open>tree->tree_string = str-1\<close> makes it 1-based, so \<open>ts_at\<close> reads position \<open>k\<close> of the
  text at index \<open>k - 1\<close> of the buffer and position 0 lies before the buffer.
  \<open>segm\<close> is the segment tree (see \<open>segmCreate\<close>). \<open>suffixless\<close> is the global variable
  of that name. \<open>heap_left\<close> is the number of \<^verbatim>\<open>malloc\<close> calls for nodes that will still
  succeed, and \<open>heap_cells k\<close> is the content of the memory that \<^verbatim>\<open>malloc\<close> returns for the
  node stored at index \<open>k\<close> of the arena: \<^verbatim>\<open>malloc\<close> does not initialise it, so it is
  arbitrary.
\<close>

record SUFFIX_TREE =
  nodes :: "NODE list"
  root :: nat
  e_end :: nat
  length_t :: nat
  tree_string :: "byte list"
  inversePointers :: "nat list"
  costArray :: "nat list"
  maxStrDepth :: "nat option list"
  D_arr :: "int list"
  COST :: nat
  segm :: "nat list"
  suffixless :: nat
  heap_left :: nat
  heap_cells :: "nat \<Rightarrow> NODE"

definition node_at :: "SUFFIX_TREE \<Rightarrow> nat \<Rightarrow> err + NODE" where
  "node_at t p = (if p = 0 then Inl Fault else rd (nodes t) p)"

definition ts_at :: "SUFFIX_TREE \<Rightarrow> nat \<Rightarrow> err + byte" where
  "ts_at t k = (if k = 0 then Inl Fault else rd (tree_string t) (k - 1))"

subsection \<open>Navigation in the tree\<close>

text \<open>\<^verbatim>\<open>find_son\<close>: the loop over the right siblings of the first son.\<close>

fun find_son_loop :: "nat \<Rightarrow> SUFFIX_TREE \<Rightarrow> nat \<Rightarrow> byte \<Rightarrow> err + nat" where
  "find_son_loop 0 t node character = Inl OutOfFuel"
| "find_son_loop (Suc fuel) t node character =
     (if node = 0 then Inr 0
      else ebind (node_at t node) (\<lambda>n.
           ebind (ts_at t (edge_label_start n)) (\<lambda>c.
             if c \<noteq> character then find_son_loop fuel t (right_sibling n) character
             else Inr node)))"

definition find_son :: "nat \<Rightarrow> SUFFIX_TREE \<Rightarrow> nat \<Rightarrow> byte \<Rightarrow> err + nat" where
  "find_son fuel t node character =
     ebind (node_at t node) (\<lambda>n. find_son_loop fuel t (sons n) character)"

definition get_node_label_end :: "SUFFIX_TREE \<Rightarrow> NODE \<Rightarrow> nat" where
  "get_node_label_end t n = (if sons n = 0 then e_end t else edge_label_end n)"

definition get_node_label_length :: "SUFFIX_TREE \<Rightarrow> NODE \<Rightarrow> nat" where
  "get_node_label_length t n = get_node_label_end t n - edge_label_start n + 1"

definition is_last_char_in_edge :: "SUFFIX_TREE \<Rightarrow> NODE \<Rightarrow> nat \<Rightarrow> bool" where
  "is_last_char_in_edge t n edge_pos = (edge_pos = get_node_label_length t n - 1)"

subsection \<open>The longest-admissible-match query\<close>

text \<open>
  The inner loop of \<^verbatim>\<open>ST_FindSubstring\<close>:
  \<^verbatim>\<open>while(j<P && k<=node_label_end && tree->tree_string[k] == W[j]) { j++; k++; }\<close>.
  \<open>W\<close> is the memory from the pointer \<^verbatim>\<open>W\<close> on.
\<close>

function scan_edge ::
  "SUFFIX_TREE \<Rightarrow> byte list \<Rightarrow> nat \<Rightarrow> nat \<Rightarrow> nat \<Rightarrow> nat \<Rightarrow> err + (nat \<times> nat)" where
  "scan_edge t W P node_label_end j k =
     (if j < P \<and> k \<le> node_label_end then
        ebind (ts_at t k) (\<lambda>a.
        ebind (rd W j) (\<lambda>b.
          if a = b then scan_edge t W P node_label_end (j + 1) (k + 1) else Inr (j, k)))
      else Inr (j, k))"
  by pat_completeness auto
termination
  by (relation "measure (\<lambda>(t, W, P, node_label_end, j, k). P - j)") auto

declare scan_edge.simps [simp del]

text \<open>The outer loop \<^verbatim>\<open>while(node!=0)\<close> of \<^verbatim>\<open>ST_FindSubstring\<close>.\<close>

fun ST_FindSubstring_loop ::
  "nat \<Rightarrow> SUFFIX_TREE \<Rightarrow> byte list \<Rightarrow> nat \<Rightarrow> nat \<Rightarrow> nat \<Rightarrow> MATCH \<Rightarrow> err + MATCH" where
  "ST_FindSubstring_loop 0 t W P node j currentMatch = Inl OutOfFuel"
| "ST_FindSubstring_loop (Suc fuel) t W P node j currentMatch =
     (if node = 0 then Inr currentMatch
      else ebind (node_at t node) (\<lambda>n.
        if optimisticMinMax (annot n) = UNSET then Inr currentMatch
        else if optimisticMinMax (annot n) = COST t then
          ebind (rd (D_arr t) (optimisticTextPos (annot n))) (\<lambda>d.
            if d > int (mlength currentMatch)
            then Inr \<lparr>mlength = nat d, mpos = optimisticTextPos (annot n)\<rparr>
            else Inr currentMatch)
        else
          ebind (scan_edge t W P (get_node_label_end t n) j (edge_label_start n)) (\<lambda>(j', k).
            if optimisticTextPos (annot n) \<noteq> 0 then
              (let cm = \<lparr>mlength = j', mpos = optimisticTextPos (annot n)\<rparr> in
               if j' = P then Inr cm
               else if k > get_node_label_end t n then
                 ebind (rd W j') (\<lambda>c.
                 ebind (find_son (Suc fuel) t node c) (\<lambda>node'.
                   ST_FindSubstring_loop fuel t W P node' j' cm))
               else Inr cm)
            else Inl (Exit 1))))"

definition ST_FindSubstring :: "nat \<Rightarrow> SUFFIX_TREE \<Rightarrow> byte list \<Rightarrow> nat \<Rightarrow> err + MATCH" where
  "ST_FindSubstring fuel t W P =
     ebind (rd W 0) (\<lambda>c.
     ebind (find_son fuel t (root t) c) (\<lambda>node.
       ST_FindSubstring_loop fuel t W P node 0 \<lparr>mlength = 0, mpos = 0\<rparr>))"

subsection \<open>Segment tree\<close>

text \<open>
  The segment tree (\<^verbatim>\<open>segmCreate\<close>, \<^verbatim>\<open>segmUpdate\<close>, \<^verbatim>\<open>cappedMax\<close>) is defined in a file
  that is not part of the sources. The three definitions below follow the specification.
\<close>

text \<open>Modelled from the spec: \<^verbatim>\<open>segmCreate\<close> is missing from the sources. "Balanced binary
  tree over positions 1..n+1 storing per-node the maximum of U over its range. Invariant: S
  always reflects the current U." The model keeps the values at the leaves, positions
  \<open>0..n\<close> of the array it is created from.\<close>
definition segmCreate :: "nat list \<Rightarrow> nat \<Rightarrow> nat list" where
  "segmCreate A n = take (Suc n) A"

text \<open>Modelled from the spec: \<^verbatim>\<open>segmUpdate\<close> is missing from the sources.
  "\<^verbatim>\<open>segmUpdate(i, v)\<close>: set U[i] = v."\<close>
definition segmUpdate :: "nat list \<Rightarrow> nat \<Rightarrow> nat \<Rightarrow> nat list" where
  "segmUpdate S i v = S[i := v]"

text \<open>Modelled from the spec: \<^verbatim>\<open>cappedMax\<close> is missing from the sources.
  "\<^verbatim>\<open>cappedMax(l, r, C)\<close>: return the maximum of U[l..r], but if that maximum is \<open>\<ge>\<close> C,
  return C (cap)". The source uses the result as an index into the cost array (line 694,
  \<^verbatim>\<open>tree->costArray[cappedMax(...)]\<close>), so the function returns a position of the range. The
  model returns the first position of \<open>l..r\<close> whose value is at least \<open>C\<close> and, when there is
  none, the first position of the maximum of the range: the cost array read at the result
  is the value that the spec describes. \<open>scan_max\<close> is the scan of the values after the
  first one, with the best position so far and its value. Positions that are not in the
  segment tree are not looked at, and for an empty range the result is \<open>l\<close>.\<close>
fun scan_max :: "nat \<Rightarrow> nat list \<Rightarrow> nat \<Rightarrow> nat \<Rightarrow> nat \<Rightarrow> nat" where
  "scan_max C [] p best bv = best"
| "scan_max C (x # xs) p best bv =
     (if C \<le> bv then best
      else if bv < x then scan_max C xs (Suc p) p x
      else scan_max C xs (Suc p) best bv)"

text \<open>Modelled from the spec: \<^verbatim>\<open>cappedMax\<close>, as described above.\<close>
definition cappedMax :: "nat list \<Rightarrow> nat \<Rightarrow> nat \<Rightarrow> nat \<Rightarrow> nat" where
  "cappedMax S l r C =
     (case take (Suc r - l) (drop l S) of
        [] \<Rightarrow> l
      | x # xs \<Rightarrow> scan_max C xs (Suc l) l x)"

subsection \<open>Annotation updates\<close>

definition set_node :: "SUFFIX_TREE \<Rightarrow> nat \<Rightarrow> NODE \<Rightarrow> SUFFIX_TREE" where
  "set_node t p n = t\<lparr>nodes := (nodes t)[p := n]\<rparr>"

text \<open>The loop of \<^verbatim>\<open>getMinMaxOfChildren\<close>; the \<^verbatim>\<open>D\<close> entries are read only when the two
  optimistic values are equal (\<^verbatim>\<open>||\<close> and \<^verbatim>\<open>&&\<close> evaluate left to right).\<close>

fun getMinMaxOfChildren_loop :: "nat \<Rightarrow> SUFFIX_TREE \<Rightarrow> nat \<Rightarrow> nat \<Rightarrow> err + nat" where
  "getMinMaxOfChildren_loop 0 t resultSon currentSon = Inl OutOfFuel"
| "getMinMaxOfChildren_loop (Suc fuel) t resultSon currentSon =
     (if currentSon = 0 then Inr resultSon
      else ebind (node_at t resultSon) (\<lambda>r.
           ebind (node_at t currentSon) (\<lambda>c.
           ebind (if optimisticMinMax (annot r) > optimisticMinMax (annot c) then Inr True
                  else if optimisticMinMax (annot r) = optimisticMinMax (annot c) then
                    ebind (rd (D_arr t) (optimisticTextPos (annot r))) (\<lambda>dr.
                    ebind (rd (D_arr t) (optimisticTextPos (annot c))) (\<lambda>dc.
                      Inr (dr < dc)))
                  else Inr False) (\<lambda>better.
             getMinMaxOfChildren_loop fuel t (if better then currentSon else resultSon)
               (right_sibling c)))))"

definition getMinMaxOfChildren :: "nat \<Rightarrow> SUFFIX_TREE \<Rightarrow> nat \<Rightarrow> err + nat" where
  "getMinMaxOfChildren fuel t node =
     ebind (node_at t node) (\<lambda>n. getMinMaxOfChildren_loop fuel t (sons n) (sons n))"

text \<open>
  Lines 692 to 722 of \<^verbatim>\<open>changeAnnotationFromLeaf\<close>: the committed annotation of the
  ancestor \<open>parent\<close>. \<open>candidate_cost\<close> is the local variable \<^verbatim>\<open>cost\<close>,
  \<^verbatim>\<open>tree->costArray[cappedMax(tree->segm,textPos,textPos+parent->strDepth-1,tree->COST)]\<close>.
  \<open>range_fits\<close> is the test \<^verbatim>\<open>textPos + parent->strDepth - 1 <= finalPos\<close>; it is unsigned:
  for \<open>textPos + strDepth = 0\<close> its left side is \<open>2^32 - 1\<close> and it fails.
\<close>

definition candidate_cost :: "SUFFIX_TREE \<Rightarrow> nat \<Rightarrow> nat \<Rightarrow> err + nat" where
  "candidate_cost t textPos_arg d =
     rd (costArray t) (cappedMax (segm t) textPos_arg (textPos_arg + d - 1) (COST t))"

definition range_fits :: "nat \<Rightarrow> nat \<Rightarrow> nat \<Rightarrow> bool" where
  "range_fits textPos_arg d finalPos \<longleftrightarrow> 0 < textPos_arg + d \<and> textPos_arg + d - 1 \<le> finalPos"

definition commit :: "NODE \<Rightarrow> nat \<Rightarrow> nat \<Rightarrow> NODE" where
  "commit p cost textPos_arg = p\<lparr>annot := (annot p)\<lparr>minMax := cost, textPos := textPos_arg\<rparr>\<rparr>"

definition commit_step :: "SUFFIX_TREE \<Rightarrow> nat \<Rightarrow> nat \<Rightarrow> nat \<Rightarrow> err + SUFFIX_TREE" where
  "commit_step t parent textPos_arg finalPos =
     ebind (node_at t parent) (\<lambda>p.
       if range_fits textPos_arg (strDepth p) finalPos then
         ebind (candidate_cost t textPos_arg (strDepth p)) (\<lambda>cost.
           if minMax (annot p) = COST t then
             (if cost < COST t then Inr (set_node t parent (commit p cost textPos_arg))
              else
                ebind (rd (D_arr t) textPos_arg) (\<lambda>dt.
                  if dt \<noteq> -1 then
                    ebind (rd (D_arr t) (textPos (annot p))) (\<lambda>dp.
                      if dt > dp then Inr (set_node t parent (commit p cost textPos_arg))
                      else Inr t)
                  else Inr t))
           else
             (if cost < minMax (annot p) then Inr (set_node t parent (commit p cost textPos_arg))
              else Inr t))
       else Inr t)"

text \<open>Lines 724 to 773: the optimistic annotation of \<open>parent\<close>; \<open>holder\<close> is
  \<^verbatim>\<open>newMinMaxHolder\<close>.\<close>

definition adopt :: "NODE \<Rightarrow> nat \<Rightarrow> nat \<Rightarrow> NODE" where
  "adopt p v pos =
     p\<lparr>annot := (annot p)\<lparr>optimisticMinMax := v, optimisticTextPos := pos\<rparr>\<rparr>"

definition optimistic_step ::
  "SUFFIX_TREE \<Rightarrow> nat \<Rightarrow> nat \<Rightarrow> nat \<Rightarrow> nat \<Rightarrow> err + SUFFIX_TREE" where
  "optimistic_step t parent holder textPos_arg minMaxOfRange =
     ebind (node_at t parent) (\<lambda>p.
       if optimisticMinMax (annot p) = UNSET then
         Inr (set_node t parent (adopt p minMaxOfRange textPos_arg))
       else
         ebind (node_at t holder) (\<lambda>h.
           if optimisticMinMax (annot p) = COST t then
             (if optimisticMinMax (annot h) = COST t then
                ebind (rd (D_arr t) (optimisticTextPos (annot h))) (\<lambda>dh.
                ebind (rd (D_arr t) (optimisticTextPos (annot p))) (\<lambda>dp.
                  if dh > dp then
                    Inr (set_node t parent
                          (adopt p (optimisticMinMax (annot h)) (optimisticTextPos (annot h))))
                  else
                    Inr (set_node t parent (adopt p (minMax (annot p)) (textPos (annot p))))))
              else
                Inr (set_node t parent
                      (adopt p (optimisticMinMax (annot h)) (optimisticTextPos (annot h)))))
           else
             (if optimisticMinMax (annot h) < minMax (annot p) then
                Inr (set_node t parent
                      (adopt p (optimisticMinMax (annot h)) (optimisticTextPos (annot h))))
              else
                Inr (set_node t parent (adopt p (minMax (annot p)) (textPos (annot p)))))))"

text \<open>The loop \<^verbatim>\<open>while(parent != NULL && (int)parent->strDepth > len)\<close>.\<close>

fun changeAnnotation_loop ::
  "nat \<Rightarrow> nat \<Rightarrow> nat \<Rightarrow> int \<Rightarrow> nat \<Rightarrow> SUFFIX_TREE \<Rightarrow> nat \<Rightarrow> err + SUFFIX_TREE" where
  "changeAnnotation_loop 0 textPos_arg finalPos len minMaxOfRange t parent = Inl OutOfFuel"
| "changeAnnotation_loop (Suc fuel) textPos_arg finalPos len minMaxOfRange t parent =
     (if parent = 0 then Inr t
      else ebind (node_at t parent) (\<lambda>p.
        if int (strDepth p) > len then
          ebind (getMinMaxOfChildren (Suc fuel) t parent) (\<lambda>holder.
          ebind (commit_step t parent textPos_arg finalPos) (\<lambda>t1.
          ebind (optimistic_step t1 parent holder textPos_arg minMaxOfRange) (\<lambda>t2.
          ebind (node_at t2 parent) (\<lambda>p2.
            changeAnnotation_loop fuel textPos_arg finalPos len minMaxOfRange t2 (father p2)))))
        else Inr t))"

definition changeAnnotationFromLeaf ::
  "nat \<Rightarrow> nat \<Rightarrow> nat \<Rightarrow> int \<Rightarrow> nat \<Rightarrow> SUFFIX_TREE \<Rightarrow> err + SUFFIX_TREE" where
  "changeAnnotationFromLeaf fuel textPos_arg finalPos len minMaxOfRange t =
     ebind (rd (inversePointers t) textPos_arg) (\<lambda>leaf.
     ebind (node_at t leaf) (\<lambda>l.
       let t1 = (if minMaxOfRange > minMax (annot l) \<or> minMax (annot l) = UNSET
                 then set_node t leaf
                        (l\<lparr>annot := (annot l)\<lparr>minMax := minMaxOfRange,
                                              optimisticMinMax := minMaxOfRange\<rparr>\<rparr>)
                 else t)
       in changeAnnotation_loop fuel textPos_arg finalPos len minMaxOfRange t1 (father l)))"

text \<open>\<^verbatim>\<open>propagateAnnotation\<close>: the loop \<^verbatim>\<open>for(i = textPos+len; i > 0; i--)\<close>.\<close>

fun propagate_loop ::
  "nat \<Rightarrow> nat \<Rightarrow> nat \<Rightarrow> SUFFIX_TREE \<Rightarrow> nat \<Rightarrow> nat \<Rightarrow> err + SUFFIX_TREE" where
  "propagate_loop fuel textPos_arg len t currentMinMaxOfRange 0 = Inr t"
| "propagate_loop fuel textPos_arg len t currentMinMaxOfRange (Suc i) =
     ebind (rd (costArray t) (Suc i)) (\<lambda>u.
       let cur = (if currentMinMaxOfRange < u then u else currentMinMaxOfRange) in
       ebind (rd_init (maxStrDepth t) (Suc i)) (\<lambda>m.
         if m < textPos_arg then Inr t
         else
           ebind (changeAnnotationFromLeaf fuel (Suc i) (textPos_arg + len)
                    (int textPos_arg - int (Suc i)) cur t) (\<lambda>t'.
             propagate_loop fuel textPos_arg len t' cur i)))"

definition propagateAnnotation :: "nat \<Rightarrow> nat \<Rightarrow> nat \<Rightarrow> SUFFIX_TREE \<Rightarrow> err + SUFFIX_TREE" where
  "propagateAnnotation fuel textPos_arg len t =
     propagate_loop fuel textPos_arg len t 0 (textPos_arg + len)"

subsection \<open>The parser\<close>

text \<open>The loop \<^verbatim>\<open>for(currentPos = textPos+i-1; currentPos > positionOfPreviousC; currentPos--)\<close>
  of \<^verbatim>\<open>parseBLZ\<close>, which fills \<^verbatim>\<open>D\<close> backwards from a position whose cost reached the bound.\<close>

function D_loop :: "int list \<Rightarrow> nat \<Rightarrow> nat \<Rightarrow> err + int list" where
  "D_loop d currentPos positionOfPreviousC_arg =
     (if currentPos > positionOfPreviousC_arg then
        ebind (rd d (currentPos + 1)) (\<lambda>v.
        ebind (wr d currentPos (v + 1)) (\<lambda>d'.
          D_loop d' (currentPos - 1) positionOfPreviousC_arg))
      else Inr d)"
  by pat_completeness auto
termination
  by (relation "measure (\<lambda>(d, currentPos, p). currentPos)") auto

declare D_loop.simps [simp del]

text \<open>
  The loop \<^verbatim>\<open>for(i = 0; i < currentPhrase.length; i++)\<close> of \<^verbatim>\<open>parseBLZ\<close> (lines 832 to 851).
  It returns the tree and \<^verbatim>\<open>positionOfPreviousC\<close>.
\<close>

function update_costs ::
  "SUFFIX_TREE \<Rightarrow> nat \<Rightarrow> MATCH \<Rightarrow> nat \<Rightarrow> nat \<Rightarrow> nat \<Rightarrow> err + (SUFFIX_TREE \<times> nat)" where
  "update_costs t textPos_arg currentPhrase i k positionOfPreviousC_arg =
     (if i < mlength currentPhrase then
        ebind (rd (costArray t) (mpos currentPhrase + k)) (\<lambda>u.
        ebind (wr (costArray t) (textPos_arg + i) (u + 1)) (\<lambda>ca.
        ebind (if u + 1 = COST t then
                 ebind (wr (D_arr t) (textPos_arg + i) 0) (\<lambda>d0.
                 ebind (D_loop d0 (textPos_arg + i - 1) positionOfPreviousC_arg) (\<lambda>d1.
                   Inr (d1, textPos_arg + i)))
               else Inr (D_arr t, positionOfPreviousC_arg)) (\<lambda>(d, prevC).
          if u + 1 > COST t then Inl (Exit 1)
          else
            update_costs
              (t\<lparr>costArray := ca, D_arr := d,
                 segm := segmUpdate (segm t) (textPos_arg + i) (u + 1)\<rparr>)
              textPos_arg currentPhrase (i + 1)
              (if mpos currentPhrase + (k + 1) = textPos_arg then 0 else k + 1) prevC)))
      else Inr (t, positionOfPreviousC_arg))"
  by pat_completeness auto
termination
  by (relation "measure (\<lambda>(t, textPos_arg, currentPhrase, i, k, p). mlength currentPhrase - i)")
    auto

declare update_costs.simps [simp del]

text \<open>
  The state of the loop of \<^verbatim>\<open>parseBLZ\<close>. \<open>printed\<close> holds the phrases written to standard
  output, one triple for each \<^verbatim>\<open>printf("(%d,%d,%d)\n", ...)\<close>. \<open>queries\<close> records, for each call
  of \<^verbatim>\<open>ST_FindSubstring\<close>, the text position its argument \<^verbatim>\<open>W\<close> points to and its argument
  \<^verbatim>\<open>P\<close>. The progress messages on standard error are not modelled.
\<close>

record parser =
  ptree :: SUFFIX_TREE
  ptextPos :: nat
  z :: nat
  positionOfPreviousC :: nat
  printed :: "(int \<times> nat \<times> byte) list"
  queries :: "(nat \<times> nat) list"

text \<open>Lines 832 to 854 of \<^verbatim>\<open>parseBLZ\<close>: the costs of the phrase \<open>currentPhrase\<close> found at
  \<open>textPos\<close> and of its literal. It returns the tree and \<^verbatim>\<open>positionOfPreviousC\<close>.\<close>

definition parse_update :: "parser \<Rightarrow> MATCH \<Rightarrow> err + (SUFFIX_TREE \<times> nat)" where
  "parse_update st currentPhrase =
     ebind (update_costs (ptree st) (ptextPos st) currentPhrase 0 0 (positionOfPreviousC st))
       (\<lambda>(t1, prevC).
     ebind (wr (costArray t1) (ptextPos st + mlength currentPhrase) 0) (\<lambda>ca.
       Inr (t1\<lparr>costArray := ca,
               segm := segmUpdate (segm t1) (ptextPos st + mlength currentPhrase) 0\<rparr>,
            prevC)))"

text \<open>One iteration of \<^verbatim>\<open>while(textPos <= tree->length)\<close> (lines 826 to 867).\<close>

definition parse_iteration :: "nat \<Rightarrow> parser \<Rightarrow> err + parser" where
  "parse_iteration fuel st =
     ebind (ST_FindSubstring fuel (ptree st)
              (drop (ptextPos st - 1) (tree_string (ptree st))) (length_t (ptree st)))
       (\<lambda>currentPhrase.
     ebind (parse_update st currentPhrase) (\<lambda>(t2, prevC).
     ebind (propagateAnnotation fuel (ptextPos st) (mlength currentPhrase) t2) (\<lambda>t3.
     ebind (ts_at t3 (ptextPos st + mlength currentPhrase + 1 - 1)) (\<lambda>lit.
       Inr \<lparr>ptree = t3,
            ptextPos = ptextPos st + mlength currentPhrase + 1,
            z = z st + 1,
            positionOfPreviousC = prevC,
            printed = printed st @ [(int (mpos currentPhrase) - 1, mlength currentPhrase, lit)],
            queries = queries st @ [(ptextPos st, length_t (ptree st))]\<rparr>))))"

subsection \<open>What the annotation updates and the cost updates leave unchanged\<close>

lemma ebind_Inr_iff: "ebind m f = Inr y \<longleftrightarrow> (\<exists>x. m = Inr x \<and> f x = Inr y)"
  by (cases m) (simp_all add: ebind_def)

lemma ebind_cong [fundef_cong]:
  "m = m' \<Longrightarrow> (\<And>x. m' = Inr x \<Longrightarrow> f x = f' x) \<Longrightarrow> ebind m f = ebind m' f'"
  by (cases m') (simp_all add: ebind_def)

definition frame :: "SUFFIX_TREE \<Rightarrow> SUFFIX_TREE \<Rightarrow> bool" where
  "frame t t' \<longleftrightarrow> t' = t\<lparr>nodes := nodes t'\<rparr>"

lemma frame_refl: "frame t t"
  by (simp add: frame_def)

lemma frame_trans: "frame t t1 \<Longrightarrow> frame t1 t2 \<Longrightarrow> frame t t2"
  unfolding frame_def by (metis SUFFIX_TREE.update_convs(1) SUFFIX_TREE.surjective)

lemma frame_set_node: "frame t (set_node t p n)"
  by (simp add: frame_def set_node_def)

lemma frame_fields:
  assumes "frame t t'"
  shows "length_t t' = length_t t" and "costArray t' = costArray t"
    and "tree_string t' = tree_string t" and "COST t' = COST t" and "segm t' = segm t"
    and "D_arr t' = D_arr t" and "maxStrDepth t' = maxStrDepth t"
    and "inversePointers t' = inversePointers t" and "root t' = root t"
proof -
  from assms have eq: "t' = t\<lparr>nodes := nodes t'\<rparr>"
    by (simp add: frame_def)
  show "length_t t' = length_t t" by (subst eq) simp
  show "costArray t' = costArray t" by (subst eq) simp
  show "tree_string t' = tree_string t" by (subst eq) simp
  show "COST t' = COST t" by (subst eq) simp
  show "segm t' = segm t" by (subst eq) simp
  show "D_arr t' = D_arr t" by (subst eq) simp
  show "maxStrDepth t' = maxStrDepth t" by (subst eq) simp
  show "inversePointers t' = inversePointers t" by (subst eq) simp
  show "root t' = root t" by (subst eq) simp
qed

definition framed :: "SUFFIX_TREE \<Rightarrow> err + SUFFIX_TREE \<Rightarrow> bool" where
  "framed t m \<longleftrightarrow> (\<forall>t'. m = Inr t' \<longrightarrow> frame t t')"

lemma framedD: "framed t m \<Longrightarrow> m = Inr t' \<Longrightarrow> frame t t'"
  by (simp add: framed_def)

lemma framed_Inl: "framed t (Inl x)"
  by (simp add: framed_def)

lemma framed_Inr: "frame t t' \<Longrightarrow> framed t (Inr t')"
  by (simp add: framed_def)

lemma framed_if:
  "(c \<Longrightarrow> framed t a) \<Longrightarrow> (\<not> c \<Longrightarrow> framed t b) \<Longrightarrow> framed t (if c then a else b)"
  by simp

lemma framed_ebind: "(\<And>x. m = Inr x \<Longrightarrow> framed t (f x)) \<Longrightarrow> framed t (ebind m f)"
  by (cases m) (simp_all add: ebind_def framed_def)

lemma framed_seq:
  "framed t m \<Longrightarrow> (\<And>t1. m = Inr t1 \<Longrightarrow> framed t1 (f t1)) \<Longrightarrow> framed t (ebind m f)"
  by (cases m) (auto simp: ebind_def framed_def intro: frame_trans)

lemma framed_commit_step: "framed t (commit_step t parent tp finalPos)"
  unfolding commit_step_def
  by (intro framed_ebind framed_if framed_Inr framed_Inl frame_refl frame_set_node)

lemma framed_optimistic_step: "framed t (optimistic_step t parent holder tp m)"
  unfolding optimistic_step_def
  by (intro framed_ebind framed_if framed_Inr framed_Inl frame_refl frame_set_node)

lemma framed_changeAnnotation_loop:
  "framed t (changeAnnotation_loop fuel tp finalPos len m t parent)"
proof (induction fuel arbitrary: t parent)
  case 0
  show ?case by (simp add: framed_Inl)
next
  case (Suc fuel)
  show ?case
    unfolding changeAnnotation_loop.simps
    by (intro framed_seq framed_ebind framed_if framed_Inr frame_refl
        framed_commit_step framed_optimistic_step Suc.IH)
qed

lemma framed_changeAnnotationFromLeaf:
  "framed t (changeAnnotationFromLeaf fuel tp finalPos len m t)"
  unfolding changeAnnotationFromLeaf_def Let_def
  apply (intro framed_ebind)
  apply (simp only: framed_def)
  apply (intro allI impI)
  apply (drule framedD [OF framed_changeAnnotation_loop])
  apply (auto split: if_splits intro: frame_trans [OF frame_set_node])
  done

lemma framed_propagate_loop: "framed t (propagate_loop fuel tp len t cur i)"
proof (induction i arbitrary: t cur)
  case 0
  show ?case by (simp add: framed_Inr frame_refl)
next
  case (Suc i)
  show ?case
    unfolding propagate_loop.simps Let_def
    by (intro framed_seq framed_ebind framed_if framed_Inr frame_refl
        framed_changeAnnotationFromLeaf Suc.IH)
qed

lemma frame_propagateAnnotation:
  "propagateAnnotation fuel tp len t = Inr t' \<Longrightarrow> frame t t'"
  unfolding propagateAnnotation_def by (rule framedD [OF framed_propagate_loop])

text \<open>One step of the cost loop, and what the loop leaves unchanged.\<close>

lemma update_costs_unfold:
  assumes "update_costs t tp cp i k pc = Inr (t', pc')" and "i < mlength cp"
  obtains u ca d prevC where
    "rd (costArray t) (mpos cp + k) = Inr u"
    "wr (costArray t) (tp + i) (u + 1) = Inr ca"
    "(if u + 1 = COST t then
        ebind (wr (D_arr t) (tp + i) 0) (\<lambda>d0.
        ebind (D_loop d0 (tp + i - 1) pc) (\<lambda>d1. Inr (d1, tp + i)))
      else Inr (D_arr t, pc)) = Inr (d, prevC)"
    "u + 1 \<le> COST t"
    "update_costs
       (t\<lparr>costArray := ca, D_arr := d, segm := segmUpdate (segm t) (tp + i) (u + 1)\<rparr>)
       tp cp (i + 1) (if mpos cp + (k + 1) = tp then 0 else k + 1) prevC = Inr (t', pc')"
  using assms update_costs.simps [of t tp cp i k pc]
  by (auto simp: ebind_Inr_iff split: if_splits)

lemma update_costs_fields:
  "update_costs t tp cp i k pc = Inr (t', pc') \<Longrightarrow>
     length_t t' = length_t t \<and> COST t' = COST t \<and> tree_string t' = tree_string t \<and>
     nodes t' = nodes t"
proof (induction t tp cp i k pc rule: update_costs.induct)
  case (1 t tp cp i k pc)
  show ?case
  proof (cases "i < mlength cp")
    case False
    with "1.prems" show ?thesis by (simp add: update_costs.simps)
  next
    case True
    from "1.prems" True obtain u ca d prevC where
      ok: "u + 1 \<le> COST t"
      and rec: "update_costs
              (t\<lparr>costArray := ca, D_arr := d, segm := segmUpdate (segm t) (tp + i) (u + 1)\<rparr>)
              tp cp (i + 1) (if mpos cp + (k + 1) = tp then 0 else k + 1) prevC = Inr (t', pc')"
      by (rule update_costs_unfold)
    from ok have "\<not> COST t < u + 1" by simp
    from "1.IH" [OF True this rec] show ?thesis by simp
  qed
qed

text \<open>Each iteration keeps \<^verbatim>\<open>tree->length\<close> and moves \<^verbatim>\<open>textPos\<close> forward.\<close>

lemma parse_update_unfold:
  assumes "parse_update st cp = Inr (t2, prevC)"
  obtains t1 ca where
    "update_costs (ptree st) (ptextPos st) cp 0 0 (positionOfPreviousC st) = Inr (t1, prevC)"
    "wr (costArray t1) (ptextPos st + mlength cp) 0 = Inr ca"
    "t2 = t1\<lparr>costArray := ca, segm := segmUpdate (segm t1) (ptextPos st + mlength cp) 0\<rparr>"
  using assms unfolding parse_update_def by (auto simp: ebind_Inr_iff)

lemma parse_iteration_unfold:
  assumes "parse_iteration fuel st = Inr st'"
  obtains cp t2 prevC t3 lit where
    "ST_FindSubstring fuel (ptree st) (drop (ptextPos st - 1) (tree_string (ptree st)))
       (length_t (ptree st)) = Inr cp"
    "parse_update st cp = Inr (t2, prevC)"
    "propagateAnnotation fuel (ptextPos st) (mlength cp) t2 = Inr t3"
    "ts_at t3 (ptextPos st + mlength cp + 1 - 1) = Inr lit"
    "st' = \<lparr>ptree = t3, ptextPos = ptextPos st + mlength cp + 1, z = z st + 1,
           positionOfPreviousC = prevC,
           printed = printed st @ [(int (mpos cp) - 1, mlength cp, lit)],
           queries = queries st @ [(ptextPos st, length_t (ptree st))]\<rparr>"
  using assms unfolding parse_iteration_def by (auto simp: ebind_Inr_iff)

lemma parse_iteration_progress:
  assumes "parse_iteration fuel st = Inr st'"
  shows "length_t (ptree st') = length_t (ptree st) \<and> ptextPos st < ptextPos st'"
proof -
  from assms obtain cp t2 prevC t3 lit where
    pu: "parse_update st cp = Inr (t2, prevC)"
    and pa: "propagateAnnotation fuel (ptextPos st) (mlength cp) t2 = Inr t3"
    and st': "st' = \<lparr>ptree = t3, ptextPos = ptextPos st + mlength cp + 1, z = z st + 1,
             positionOfPreviousC = prevC,
             printed = printed st @ [(int (mpos cp) - 1, mlength cp, lit)],
             queries = queries st @ [(ptextPos st, length_t (ptree st))]\<rparr>"
    by (rule parse_iteration_unfold)
  from pu obtain t1 ca where
    uc: "update_costs (ptree st) (ptextPos st) cp 0 0 (positionOfPreviousC st) = Inr (t1, prevC)"
    and t2: "t2 = t1\<lparr>costArray := ca,
                       segm := segmUpdate (segm t1) (ptextPos st + mlength cp) 0\<rparr>"
    by (rule parse_update_unfold)
  have "length_t t3 = length_t t2"
    using frame_fields(1) [OF frame_propagateAnnotation [OF pa]] .
  with update_costs_fields [OF uc] st' t2 show ?thesis by simp
qed

text \<open>The loop \<^verbatim>\<open>while(textPos <= tree->length)\<close> and \<^verbatim>\<open>parseBLZ\<close>. \<^verbatim>\<open>parseBLZ\<close> returns
  \<open>z\<close>; the model returns the whole final state, of which \<open>z\<close> is a field.\<close>

function parse_loop :: "nat \<Rightarrow> parser \<Rightarrow> err + parser" where
  "parse_loop fuel st =
     (if ptextPos st \<le> length_t (ptree st) then ebind (parse_iteration fuel st) (parse_loop fuel)
      else Inr st)"
  by pat_completeness auto
termination
  by (relation "measure (\<lambda>(fuel, st). length_t (ptree st) + 1 - ptextPos st)")
    (auto dest!: parse_iteration_progress)

declare parse_loop.simps [simp del]

definition parseBLZ :: "nat \<Rightarrow> SUFFIX_TREE \<Rightarrow> err + parser" where
  "parseBLZ fuel t =
     parse_loop fuel
       \<lparr>ptree = t, ptextPos = 1, z = 0, positionOfPreviousC = 0, printed = [], queries = []\<rparr>"

subsection \<open>Suffix tree construction (Ukkonen)\<close>

text \<open>
  \<^verbatim>\<open>create_node\<close>: a new node is appended to the arena and its index is returned. When
  \<^verbatim>\<open>malloc\<close> fails the source prints "Out of memory." and calls \<^verbatim>\<open>exit(0)\<close>. The source
  assigns eight fields of the new node; \<open>strDepth\<close> and \<open>annot\<close> keep what the memory
  held (\<open>heap_cells\<close>).
\<close>

definition create_node ::
  "SUFFIX_TREE \<Rightarrow> nat \<Rightarrow> nat \<Rightarrow> nat \<Rightarrow> nat \<Rightarrow> err + (SUFFIX_TREE \<times> nat)" where
  "create_node t father_arg start end_arg position =
     (if heap_left t = 0 then Inl (Exit 0)
      else Inr (t\<lparr>nodes := nodes t @
                        [(heap_cells t (length (nodes t)))
                           \<lparr>sons := 0, right_sibling := 0, left_sibling := 0, suffix_link := 0,
                            father := father_arg, path_position := position,
                            edge_label_start := start, edge_label_end := end_arg\<rparr>],
                  heap_left := heap_left t - 1\<rparr>,
                length (nodes t)))"

definition modify_node :: "SUFFIX_TREE \<Rightarrow> nat \<Rightarrow> (NODE \<Rightarrow> NODE) \<Rightarrow> err + SUFFIX_TREE" where
  "modify_node t p f = ebind (node_at t p) (\<lambda>n. Inr (set_node t p (f n)))"

definition connect_siblings :: "SUFFIX_TREE \<Rightarrow> nat \<Rightarrow> nat \<Rightarrow> err + SUFFIX_TREE" where
  "connect_siblings t left_sib right_sib =
     ebind (if left_sib \<noteq> 0 then modify_node t left_sib (\<lambda>n. n\<lparr>right_sibling := right_sib\<rparr>)
            else Inr t) (\<lambda>t1.
       if right_sib \<noteq> 0 then modify_node t1 right_sib (\<lambda>n. n\<lparr>left_sibling := left_sib\<rparr>)
       else Inr t1)"

datatype RULE_2_TYPE = new_son | split

datatype SKIP_TYPE = skip | no_skip

text \<open>The loop \<^verbatim>\<open>while(son->right_sibling != 0) son = son->right_sibling;\<close>.\<close>

fun last_sibling :: "nat \<Rightarrow> SUFFIX_TREE \<Rightarrow> nat \<Rightarrow> err + nat" where
  "last_sibling 0 t son = Inl OutOfFuel"
| "last_sibling (Suc fuel) t son =
     ebind (node_at t son) (\<lambda>n.
       if right_sibling n \<noteq> 0 then last_sibling fuel t (right_sibling n) else Inr son)"

definition apply_extension_rule_2 ::
  "nat \<Rightarrow> SUFFIX_TREE \<Rightarrow> nat \<Rightarrow> nat \<Rightarrow> nat \<Rightarrow> nat \<Rightarrow> nat \<Rightarrow> RULE_2_TYPE \<Rightarrow>
     err + (SUFFIX_TREE \<times> nat)" where
  "apply_extension_rule_2 fuel t node edge_label_begin edge_label_end_arg path_pos edge_pos type =
     (if type = new_son then
        ebind (create_node t node edge_label_begin edge_label_end_arg path_pos) (\<lambda>(t1, new_leaf).
        ebind (node_at t1 node) (\<lambda>n.
        ebind (last_sibling fuel t1 (sons n)) (\<lambda>son.
        ebind (connect_siblings t1 son new_leaf) (\<lambda>t2.
          Inr (t2, new_leaf)))))
      else
        ebind (node_at t node) (\<lambda>n.
        ebind (create_node t (father n) (edge_label_start n) (edge_label_start n + edge_pos)
                 (path_position n)) (\<lambda>(t1, new_internal).
        ebind (modify_node t1 node
                 (\<lambda>n. n\<lparr>edge_label_start := edge_label_start n + (edge_pos + 1)\<rparr>)) (\<lambda>t2.
        ebind (create_node t2 new_internal edge_label_begin edge_label_end_arg path_pos)
          (\<lambda>(t3, new_leaf).
        ebind (node_at t3 node) (\<lambda>n3.
        ebind (connect_siblings t3 (left_sibling n3) new_internal) (\<lambda>t4.
        ebind (node_at t4 node) (\<lambda>n4.
        ebind (connect_siblings t4 new_internal (right_sibling n4)) (\<lambda>t5.
        ebind (modify_node t5 node (\<lambda>n. n\<lparr>left_sibling := 0\<rparr>)) (\<lambda>t6.
        ebind (node_at t6 new_internal) (\<lambda>ni.
        ebind (node_at t6 (father ni)) (\<lambda>fa.
        ebind (if sons fa = node
               then modify_node t6 (father ni) (\<lambda>n. n\<lparr>sons := new_internal\<rparr>)
               else Inr t6) (\<lambda>t7.
        ebind (modify_node t7 new_internal (\<lambda>n. n\<lparr>sons := node\<rparr>)) (\<lambda>t8.
        ebind (modify_node t8 node (\<lambda>n. n\<lparr>father := new_internal\<rparr>)) (\<lambda>t9.
        ebind (connect_siblings t9 node new_leaf) (\<lambda>t10.
          Inr (t10, new_internal)))))))))))))))))"

text \<open>The comparison loop of \<^verbatim>\<open>trace_single_edge\<close> (the \<^verbatim>\<open>no_skip\<close> case). It returns
  \<open>(edge_pos, chars_found, mismatch)\<close> as they are when the loop is left.\<close>

function compare_edge ::
  "SUFFIX_TREE \<Rightarrow> nat \<Rightarrow> nat \<Rightarrow> nat \<Rightarrow> nat \<Rightarrow> nat \<Rightarrow> err + (nat \<times> nat \<times> bool)" where
  "compare_edge t start str_begin len edge_pos chars_found =
     (if edge_pos < len then
        ebind (ts_at t (start + edge_pos)) (\<lambda>a.
        ebind (ts_at t (str_begin + edge_pos)) (\<lambda>b.
          if a \<noteq> b then Inr (edge_pos, chars_found, True)
          else compare_edge t start str_begin len (edge_pos + 1) (chars_found + 1)))
      else Inr (edge_pos, chars_found, False))"
  by pat_completeness auto
termination
  by (relation "measure (\<lambda>(t, start, str_begin, len, edge_pos, chars_found). len - edge_pos)")
    auto

declare compare_edge.simps [simp del]

text \<open>\<^verbatim>\<open>trace_single_edge\<close> returns the node and, for its reference arguments,
  \<open>(edge_pos, chars_found, search_done)\<close>. A \<^verbatim>\<open>PATH\<close> is the pair \<open>(begin, end)\<close>.\<close>

definition trace_single_edge ::
  "nat \<Rightarrow> SUFFIX_TREE \<Rightarrow> nat \<Rightarrow> nat \<times> nat \<Rightarrow> SKIP_TYPE \<Rightarrow>
     err + (nat \<times> nat \<times> nat \<times> bool)" where
  "trace_single_edge fuel t node str type =
     ebind (ts_at t (fst str)) (\<lambda>c.
     ebind (find_son fuel t node c) (\<lambda>cont_node.
       if cont_node = 0 then
         ebind (node_at t node) (\<lambda>n. Inr (node, get_node_label_length t n - 1, 0, True))
       else
         ebind (node_at t cont_node) (\<lambda>cn.
           let len = get_node_label_length t cn; str_len = snd str - fst str + 1 in
           if type = skip then
             (if len \<le> str_len then Inr (cont_node, len - 1, len, \<not> len < str_len)
              else Inr (cont_node, str_len - 1, str_len, True))
           else
             ebind (compare_edge t (edge_label_start cn) (fst str)
                      (if str_len < len then str_len else len) 1 1)
               (\<lambda>(edge_pos, chars_found, mismatch).
                 if mismatch then Inr (cont_node, edge_pos - 1, chars_found, True)
                 else Inr (cont_node, edge_pos - 1, chars_found, \<not> chars_found < str_len)))))"

text \<open>\<^verbatim>\<open>trace_string\<close>: the loop \<^verbatim>\<open>while(search_done == 0)\<close>; it returns the node,
  \<open>edge_pos\<close> and \<open>chars_found\<close>.\<close>

fun trace_string_loop ::
  "nat \<Rightarrow> SUFFIX_TREE \<Rightarrow> nat \<Rightarrow> nat \<times> nat \<Rightarrow> SKIP_TYPE \<Rightarrow> nat \<Rightarrow> err + (nat \<times> nat \<times> nat)"
  where
  "trace_string_loop 0 t node str type chars_found = Inl OutOfFuel"
| "trace_string_loop (Suc fuel) t node str type chars_found =
     ebind (trace_single_edge (Suc fuel) t node str type)
       (\<lambda>(node', edge_pos, edge_chars_found, search_done).
         if search_done then Inr (node', edge_pos, chars_found + edge_chars_found)
         else trace_string_loop fuel t node' (fst str + edge_chars_found, snd str) type
                (chars_found + edge_chars_found))"

definition trace_string ::
  "nat \<Rightarrow> SUFFIX_TREE \<Rightarrow> nat \<Rightarrow> nat \<times> nat \<Rightarrow> SKIP_TYPE \<Rightarrow> err + (nat \<times> nat \<times> nat)" where
  "trace_string fuel t node str type = trace_string_loop fuel t node str type 0"

text \<open>A \<^verbatim>\<open>POS\<close> is the pair \<open>(node, edge_pos)\<close>.\<close>

definition follow_suffix_link :: "nat \<Rightarrow> SUFFIX_TREE \<Rightarrow> nat \<times> nat \<Rightarrow> err + (nat \<times> nat)" where
  "follow_suffix_link fuel t pos =
     (if fst pos = root t then Inr pos
      else
        ebind (node_at t (fst pos)) (\<lambda>n.
          if suffix_link n = 0 \<or> \<not> is_last_char_in_edge t n (snd pos) then
            (if father n = root t then Inr (root t, snd pos)
             else
               ebind (node_at t (father n)) (\<lambda>fa.
               ebind (trace_string fuel t (suffix_link fa)
                        (edge_label_start n, edge_label_start n + snd pos) skip)
                 (\<lambda>(node', edge_pos, chars_found). Inr (node', edge_pos))))
          else
            ebind (node_at t (suffix_link n)) (\<lambda>l.
              Inr (suffix_link n, get_node_label_length t l - 1))))"

definition create_suffix_link :: "SUFFIX_TREE \<Rightarrow> nat \<Rightarrow> nat \<Rightarrow> err + SUFFIX_TREE" where
  "create_suffix_link t node link = modify_node t node (\<lambda>n. n\<lparr>suffix_link := link\<rparr>)"

text \<open>
  \<^verbatim>\<open>SEA\<close> returns the tree, \<^verbatim>\<open>pos\<close> and \<^verbatim>\<open>*rule_applied\<close>; the last keeps the value it
  had before the call on the path where the source does not assign it.
\<close>

definition link_suffixless :: "SUFFIX_TREE \<Rightarrow> nat \<Rightarrow> err + SUFFIX_TREE" where
  "link_suffixless t target =
     (if suffixless t \<noteq> 0 then
        ebind (create_suffix_link t (suffixless t) target) (\<lambda>t1. Inr (t1\<lparr>suffixless := 0\<rparr>))
      else Inr t)"

definition SEA ::
  "nat \<Rightarrow> SUFFIX_TREE \<Rightarrow> nat \<times> nat \<Rightarrow> nat \<times> nat \<Rightarrow> nat \<Rightarrow> bool \<Rightarrow>
     err + (SUFFIX_TREE \<times> (nat \<times> nat) \<times> nat)" where
  "SEA fuel t pos str rule_applied after_rule_3 =
     (let path_pos = fst str in
      ebind (if \<not> after_rule_3 then follow_suffix_link fuel t pos else Inr pos) (\<lambda>pos1.
      ebind (if fst pos1 = root t then
               ebind (trace_string fuel t (root t) str no_skip) (\<lambda>(node', edge_pos, chars_found).
                 Inr ((node', edge_pos), str, chars_found))
             else
               ebind (node_at t (fst pos1)) (\<lambda>n.
                 if is_last_char_in_edge t n (snd pos1) then
                   ebind (ts_at t (snd str)) (\<lambda>c.
                   ebind (find_son fuel t (fst pos1) c) (\<lambda>tmp.
                     if tmp \<noteq> 0 then Inr ((tmp, 0), (snd str, snd str), 1)
                     else Inr (pos1, (snd str, snd str), 0)))
                 else
                   ebind (ts_at t (edge_label_start n + snd pos1 + 1)) (\<lambda>a.
                   ebind (ts_at t (snd str)) (\<lambda>b.
                     if a = b then Inr ((fst pos1, snd pos1 + 1), (snd str, snd str), 1)
                     else Inr (pos1, (snd str, snd str), 0)))))
        (\<lambda>(pos2, str2, chars_found).
          if chars_found = snd str2 - fst str2 + 1 then
            ebind (node_at t (fst pos2)) (\<lambda>n.
            ebind (link_suffixless t (father n)) (\<lambda>t1. Inr (t1, pos2, 3)))
          else
            ebind (node_at t (fst pos2)) (\<lambda>n.
              if is_last_char_in_edge t n (snd pos2) \<or> fst pos2 = root t then
                (if sons n \<noteq> 0 then
                   ebind (apply_extension_rule_2 fuel t (fst pos2) (fst str2 + chars_found)
                            (snd str2) path_pos 0 new_son) (\<lambda>(t1, leaf).
                   ebind (link_suffixless t1 (fst pos2)) (\<lambda>t2. Inr (t2, pos2, 2)))
                 else Inr (t, pos2, rule_applied))
              else
                ebind (apply_extension_rule_2 fuel t (fst pos2) (fst str2 + chars_found)
                         (snd str2) path_pos (snd pos2) split) (\<lambda>(t1, tmp).
                ebind (if suffixless t1 \<noteq> 0 then create_suffix_link t1 (suffixless t1) tmp
                       else Inr t1) (\<lambda>t2.
                ebind (node_at t2 tmp) (\<lambda>tn.
                ebind (if get_node_label_length t2 tn = 1 \<and> father tn = root t2 then
                         ebind (modify_node t2 tmp (\<lambda>n. n\<lparr>suffix_link := root t2\<rparr>)) (\<lambda>t3.
                           Inr (t3\<lparr>suffixless := 0\<rparr>))
                       else Inr (t2\<lparr>suffixless := tmp\<rparr>)) (\<lambda>t4.
                  Inr (t4, (tmp, snd pos2), 2)))))))))"

text \<open>\<^verbatim>\<open>SPA\<close>: the loop \<^verbatim>\<open>while(*extension <= phase+1)\<close>, after \<^verbatim>\<open>tree->e = phase+1\<close>. It
  returns the tree, \<^verbatim>\<open>pos\<close>, \<^verbatim>\<open>*extension\<close> and \<^verbatim>\<open>*repeated_extension\<close>.\<close>

function SPA_loop ::
  "nat \<Rightarrow> SUFFIX_TREE \<Rightarrow> nat \<times> nat \<Rightarrow> nat \<Rightarrow> nat \<Rightarrow> bool \<Rightarrow> nat \<Rightarrow>
     err + (SUFFIX_TREE \<times> (nat \<times> nat) \<times> nat \<times> bool)" where
  "SPA_loop fuel t pos phase extension repeated_extension rule_applied =
     (if extension \<le> phase + 1 then
        ebind (SEA fuel t pos (extension, phase + 1) rule_applied repeated_extension)
          (\<lambda>(t1, pos1, rule1).
            if rule1 = 3 then Inr (t1, pos1, extension, True)
            else SPA_loop fuel t1 pos1 phase (extension + 1) False rule1)
      else Inr (t, pos, extension, repeated_extension))"
  by pat_completeness auto
termination
  by (relation "measure (\<lambda>(fuel, t, pos, phase, extension, r, a). phase + 2 - extension)") auto

declare SPA_loop.simps [simp del]

definition SPA ::
  "nat \<Rightarrow> SUFFIX_TREE \<Rightarrow> nat \<times> nat \<Rightarrow> nat \<Rightarrow> nat \<Rightarrow> bool \<Rightarrow>
     err + (SUFFIX_TREE \<times> (nat \<times> nat) \<times> nat \<times> bool)" where
  "SPA fuel t pos phase extension repeated_extension =
     SPA_loop fuel (t\<lparr>e_end := phase + 1\<rparr>) pos phase extension repeated_extension 0"

text \<open>\<^verbatim>\<open>dfsForInversePointers\<close> and its loop over the children of a node. Both return the tree
  and the number of leaves counted. \<open>child_depth\<close> is the argument
  \<^verbatim>\<open>depth + (currentChild->edge_label_end - currentChild->edge_label_start) + 1\<close>: the stored
  \<^verbatim>\<open>edge_label_end\<close> of a leaf can be smaller than its \<^verbatim>\<open>edge_label_start\<close> (a leaf keeps the end
  it was created with, and a later split moves its start), so the unsigned difference wraps
  around, and the sum is truncated to the \<^verbatim>\<open>unsigned int\<close> parameter.\<close>

definition child_depth :: "nat \<Rightarrow> nat \<Rightarrow> nat \<Rightarrow> nat" where
  "child_depth depth start end_arg =
     nat ((int depth + (int end_arg - int start) + 1) mod 4294967296)"

fun dfsForInversePointers :: "nat \<Rightarrow> nat \<Rightarrow> SUFFIX_TREE \<Rightarrow> nat \<Rightarrow> err + (SUFFIX_TREE \<times> nat)"
  and dfs_children :: "nat \<Rightarrow> nat \<Rightarrow> SUFFIX_TREE \<Rightarrow> nat \<Rightarrow> nat \<Rightarrow> err + (SUFFIX_TREE \<times> nat)"
  where
  "dfsForInversePointers 0 node t depth = Inl OutOfFuel"
| "dfsForInversePointers (Suc fuel) node t depth =
     ebind (modify_node t node
              (\<lambda>n. n\<lparr>strDepth := depth,
                      annot := (annot n)\<lparr>minMax := UNSET, optimisticMinMax := UNSET\<rparr>\<rparr>)) (\<lambda>t1.
     ebind (node_at t1 node) (\<lambda>n.
       if sons n = 0 then
         ebind (wr (inversePointers t1) (path_position n) node) (\<lambda>ip.
         ebind (node_at t1 (father n)) (\<lambda>fa.
         ebind (wr (maxStrDepth t1) (path_position n)
                  (Some (path_position n + strDepth fa - 1))) (\<lambda>msd.
           Inr (set_node (t1\<lparr>inversePointers := ip, maxStrDepth := msd\<rparr>) node
                  (n\<lparr>annot := (annot n)\<lparr>optimisticTextPos := path_position n,
                                         textPos := path_position n\<rparr>\<rparr>),
                1))))
       else
         dfs_children fuel (sons n)
           (set_node t1 node (n\<lparr>annot := (annot n)\<lparr>textPos := 0, optimisticTextPos := 0\<rparr>\<rparr>))
           depth 0))"
| "dfs_children 0 currentChild t depth num = Inl OutOfFuel"
| "dfs_children (Suc fuel) currentChild t depth num =
     (if currentChild = 0 then Inr (t, num)
      else
        ebind (node_at t currentChild) (\<lambda>c.
        ebind (dfsForInversePointers fuel currentChild t
                 (child_depth depth (edge_label_start c) (edge_label_end c))) (\<lambda>(t1, k).
        ebind (node_at t1 currentChild) (\<lambda>c1.
          dfs_children fuel (right_sibling c1) t1 depth (num + k)))))"

text \<open>The functions of the construction never write \<^verbatim>\<open>tree->length\<close>, \<^verbatim>\<open>tree->root\<close>, the
  cost array or the segment tree; the loop over the phases, which reads \<^verbatim>\<open>tree->length\<close> in
  its test, terminates for this reason. \<open>keeps t g m\<close> says that the tree \<open>g r\<close> of a result
  \<open>r\<close> of \<open>m\<close> has these four fields as \<open>t\<close> has them.\<close>

definition kept :: "SUFFIX_TREE \<Rightarrow> SUFFIX_TREE \<Rightarrow> bool" where
  "kept t t' \<longleftrightarrow>
     length_t t' = length_t t \<and> root t' = root t \<and> costArray t' = costArray t \<and>
     segm t' = segm t"

definition keeps :: "SUFFIX_TREE \<Rightarrow> ('r \<Rightarrow> SUFFIX_TREE) \<Rightarrow> err + 'r \<Rightarrow> bool" where
  "keeps t g m \<longleftrightarrow> (\<forall>r. m = Inr r \<longrightarrow> kept t (g r))"

lemma keepsD: "keeps t g m \<Longrightarrow> m = Inr r \<Longrightarrow> length_t (g r) = length_t t"
  by (simp add: keeps_def kept_def)


lemma keeps_Inl: "keeps t g (Inl x)"
  by (simp add: keeps_def)

lemma keeps_Inr: "kept t (g r) \<Longrightarrow> keeps t g (Inr r)"
  by (simp add: keeps_def)

lemma kept_refl [simp]: "kept t t"
  by (simp add: kept_def)

lemma kept_fields [simp]:
  "kept t (t'\<lparr>nodes := a\<rparr>) = kept t t'"
  "kept t (t'\<lparr>e_end := c\<rparr>) = kept t t'"
  "kept t (t'\<lparr>suffixless := d\<rparr>) = kept t t'"
  "kept t (t'\<lparr>heap_left := e\<rparr>) = kept t t'"
  "kept t (t'\<lparr>inversePointers := f\<rparr>) = kept t t'"
  "kept t (t'\<lparr>maxStrDepth := g\<rparr>) = kept t t'"
  "kept t (t'\<lparr>D_arr := h\<rparr>) = kept t t'"
  by (simp_all add: kept_def)

lemma keeps_if: "(c \<Longrightarrow> keeps t g a) \<Longrightarrow> (\<not> c \<Longrightarrow> keeps t g b) \<Longrightarrow> keeps t g (if c then a else b)"
  by simp

lemma keeps_case_prod:
  "(\<And>a b. x = (a, b) \<Longrightarrow> keeps t g (f a b)) \<Longrightarrow> keeps t g (case_prod f x)"
  by (cases x) simp

lemma keeps_pure: "(\<And>x. m = Inr x \<Longrightarrow> keeps t g (f x)) \<Longrightarrow> keeps t g (ebind m f)"
  by (cases m) (simp_all add: ebind_def keeps_def)

lemma keeps_seq_pair:
  "keeps t fst m \<Longrightarrow> (\<And>t1 x. m = Inr (t1, x) \<Longrightarrow> keeps t1 g (f t1 x)) \<Longrightarrow>
     keeps t g (ebind m (case_prod f))"
  by (cases m) (auto simp: ebind_def keeps_def kept_def)

lemma keeps_seq_tree:
  "keeps t (\<lambda>x. x) m \<Longrightarrow> (\<And>t1. m = Inr t1 \<Longrightarrow> keeps t1 g (f t1)) \<Longrightarrow> keeps t g (ebind m f)"
  by (cases m) (auto simp: ebind_def keeps_def kept_def)

lemma keeps_create_node: "keeps t fst (create_node t fa s e p)"
  by (simp add: keeps_def create_node_def kept_def)

lemma keeps_modify_node: "keeps t (\<lambda>x. x) (modify_node t p f)"
  unfolding modify_node_def
  by (intro keeps_pure keeps_Inr) (simp add: set_node_def)

lemma keeps_connect_siblings: "keeps t (\<lambda>x. x) (connect_siblings t l r)"
  unfolding connect_siblings_def
  by (intro keeps_seq_tree keeps_if keeps_modify_node keeps_Inr kept_refl)

lemma keeps_create_suffix_link: "keeps t (\<lambda>x. x) (create_suffix_link t n l)"
  unfolding create_suffix_link_def by (rule keeps_modify_node)

lemma keeps_link_suffixless: "keeps t (\<lambda>x. x) (link_suffixless t target)"
  unfolding link_suffixless_def
  by (intro keeps_seq_tree keeps_if keeps_create_suffix_link keeps_Inr) simp_all

lemma keeps_apply_extension_rule_2:
  "keeps t fst (apply_extension_rule_2 fuel t node b e pp ep type)"
  unfolding apply_extension_rule_2_def
  by (intro keeps_if keeps_seq_pair keeps_seq_tree keeps_create_node keeps_modify_node
      keeps_connect_siblings keeps_pure keeps_Inr) simp_all

lemma keeps_SEA: "keeps t fst (SEA fuel t pos str rule after)"
  unfolding SEA_def Let_def
  by (intro keeps_if keeps_seq_pair keeps_seq_tree keeps_apply_extension_rule_2
      keeps_link_suffixless keeps_create_suffix_link keeps_modify_node
      keeps_pure keeps_case_prod keeps_Inr) simp_all

lemma keeps_SPA_loop: "keeps t fst (SPA_loop fuel t pos phase ext rep rule)"
proof (induction fuel t pos phase ext rep rule rule: SPA_loop.induct)
  case (1 fuel t pos phase extension repeated_extension rule_applied)
  show ?case
    apply (subst SPA_loop.simps)
    apply (intro keeps_if keeps_seq_pair keeps_SEA keeps_case_prod keeps_Inr)
      apply simp
     apply (rule "1.IH")
        apply simp_all
    done
qed

lemma keeps_SPA: "keeps t fst (SPA fuel t pos phase ext rep)"
  using keeps_SPA_loop [of "t\<lparr>e_end := phase + 1\<rparr>"] by (simp add: SPA_def keeps_def kept_def)

text \<open>The loops of \<^verbatim>\<open>ST_CreateTree\<close>: the phases, and the pass that makes \<^verbatim>\<open>maxStrDepth\<close>
  monotone.\<close>

function phases_loop ::
  "nat \<Rightarrow> SUFFIX_TREE \<Rightarrow> nat \<times> nat \<Rightarrow> nat \<Rightarrow> nat \<Rightarrow> bool \<Rightarrow> err + SUFFIX_TREE" where
  "phases_loop fuel t pos phase extension repeated_extension =
     (if phase < length_t t then
        ebind (SPA fuel t pos phase extension repeated_extension) (\<lambda>(t1, pos1, ext1, rep1).
          phases_loop fuel t1 pos1 (phase + 1) ext1 rep1)
      else Inr t)"
  by pat_completeness auto
termination
  by (relation "measure (\<lambda>(fuel, t, pos, phase, e, r). length_t t - phase)")
    (auto dest!: keepsD [OF keeps_SPA])

declare phases_loop.simps [simp del]

function monotone_loop :: "nat option list \<Rightarrow> nat \<Rightarrow> nat \<Rightarrow> err + nat option list" where
  "monotone_loop msd i len =
     (if i \<le> len then
        ebind (rd_init msd (i - 1)) (\<lambda>a.
        ebind (rd_init msd i) (\<lambda>b.
          monotone_loop (if a > b then msd[i := Some a] else msd) (i + 1) len))
      else Inr msd)"
  by pat_completeness auto
termination
  by (relation "measure (\<lambda>(msd, i, len). len + 1 - i)") auto

declare monotone_loop.simps [simp del]

text \<open>
  \<^verbatim>\<open>ST_CreateTree(str, length)\<close>. \<open>str\<close> is the buffer of \<open>len + 1\<close> bytes that \<^verbatim>\<open>main\<close> has
  filled and terminated with 0. \<open>heap\<close> is the number of checked \<^verbatim>\<open>malloc\<close> calls (the tree
  and its nodes) that will succeed, \<open>cells\<close> the content of the memory they return; the
  arrays, whose allocation the source does not check, are always allocated. Index 0 of the arena is the null pointer and holds no node of the
  tree. \<^verbatim>\<open>tree->e\<close> and \<^verbatim>\<open>tree->COST\<close>, which \<^verbatim>\<open>ST_CreateTree\<close> does not initialise, are 0;
  the cells of \<^verbatim>\<open>inversePointers\<close> that \<^verbatim>\<open>dfsForInversePointers\<close> does not write hold the
  null pointer. The messages on standard error are not modelled.
\<close>

definition null_node :: NODE where
  "null_node = \<lparr>sons = 0, right_sibling = 0, left_sibling = 0, suffix_link = 0, father = 0,
                 path_position = 0, edge_label_start = 0, edge_label_end = 0, strDepth = 0,
                 annot = \<lparr>minMax = 0, textPos = 0, optimisticMinMax = 0,
                           optimisticTextPos = 0\<rparr>\<rparr>"

definition ST_CreateTree ::
  "nat \<Rightarrow> nat \<Rightarrow> (nat \<Rightarrow> NODE) \<Rightarrow> byte list \<Rightarrow> nat \<Rightarrow> err + SUFFIX_TREE" where
  "ST_CreateTree fuel heap cells str len =
     (if heap = 0 then Inl (Exit 0)
      else
        ebind (create_node
                 \<lparr>nodes = [null_node], root = 0, e_end = 0, length_t = len + 1,
                  tree_string = str, inversePointers = replicate (len + 2) 0,
                  costArray = replicate (len + 2) (len + 1),
                  maxStrDepth = replicate (len + 2) None, D_arr = [], COST = 0,
                  segm = segmCreate (replicate (len + 2) (len + 1)) (len + 1),
                  suffixless = 0, heap_left = heap - 1, heap_cells = cells\<rparr> 0 0 0 0)
          (\<lambda>(t1, r).
        ebind (create_node (t1\<lparr>root := r\<rparr>) r 1 (len + 1) 1) (\<lambda>(t2, son).
        ebind (modify_node t2 r (\<lambda>n. n\<lparr>sons := son\<rparr>)) (\<lambda>t3.
        ebind (phases_loop fuel (t3\<lparr>suffixless := 0\<rparr>) (r, 0) 2 2 False) (\<lambda>t4.
        ebind (dfsForInversePointers fuel (root t4) t4 0) (\<lambda>(t5, nn).
        ebind (monotone_loop (maxStrDepth t5) 2 (length_t t5)) (\<lambda>msd.
          Inr (t5\<lparr>maxStrDepth := msd, D_arr := replicate (length_t t5 + 1) (- 1)\<rparr>))))))))"

subsection \<open>The program\<close>

text \<open>
  The environment of \<^verbatim>\<open>main\<close>: the number of command-line arguments, the bytes of the
  input file (\<open>None\<close> when \<^verbatim>\<open>fopen\<close> fails), the value of \<^verbatim>\<open>atoi(argv[2])\<close>, the number
  of checked allocations that will succeed, and the content of the memory that the
  allocations of nodes return. A \<^verbatim>\<open>return\<close> from \<^verbatim>\<open>main\<close> before the parse is
  \<open>Exit\<close> with the returned status; the \<^verbatim>\<open>return 0\<close> at the end of \<^verbatim>\<open>main\<close> is \<open>Inr\<close> with
  the final state of the parser.
\<close>

record environment =
  argc :: nat
  input_file :: "byte list option"
  maxc :: nat
  heap :: nat
  memory :: "nat \<Rightarrow> NODE"

definition main :: "nat \<Rightarrow> environment \<Rightarrow> err + parser" where
  "main fuel env =
     (if argc env < 3 then Inl (Exit 1)
      else case input_file env of
        None \<Rightarrow> Inl (Exit 0)
      | Some bytes \<Rightarrow>
          if heap env = 0 then Inl (Exit 0)
          else if 0 \<in> set bytes then Inl (Exit 1)
          else
            ebind (ST_CreateTree fuel (heap env - 1) (memory env) (bytes @ [0]) (length bytes)) (\<lambda>t.
              parseBLZ fuel (t\<lparr>COST := maxc env\<rparr>)))"

definition exit_status :: "err + 'a \<Rightarrow> nat option" where
  "exit_status r = (case r of Inr x \<Rightarrow> Some 0 | Inl (Exit c) \<Rightarrow> Some c | Inl other \<Rightarrow> None)"

text \<open>
  The run of \<^verbatim>\<open>main\<close> up to the end of the \<open>n\<close>-th iteration of the loop of \<^verbatim>\<open>parseBLZ\<close>:
  \<open>parse_steps\<close> is the loop cut after \<open>n\<close> iterations, \<open>main_steps\<close> is \<^verbatim>\<open>main\<close> with the
  loop cut in this way. They give the states that a run goes through.
\<close>

fun parse_steps :: "nat \<Rightarrow> nat \<Rightarrow> parser \<Rightarrow> err + parser" where
  "parse_steps fuel 0 st = Inr st"
| "parse_steps fuel (Suc n) st =
     (if ptextPos st \<le> length_t (ptree st)
      then ebind (parse_iteration fuel st) (parse_steps fuel n)
      else Inr st)"

definition main_steps :: "nat \<Rightarrow> nat \<Rightarrow> environment \<Rightarrow> err + parser" where
  "main_steps fuel n env =
     (if argc env < 3 then Inl (Exit 1)
      else case input_file env of
        None \<Rightarrow> Inl (Exit 0)
      | Some bytes \<Rightarrow>
          if heap env = 0 then Inl (Exit 0)
          else if 0 \<in> set bytes then Inl (Exit 1)
          else
            ebind (ST_CreateTree fuel (heap env - 1) (memory env) (bytes @ [0]) (length bytes)) (\<lambda>t.
              parse_steps fuel n
                \<lparr>ptree = t\<lparr>COST := maxc env\<rparr>, ptextPos = 1, z = 0, positionOfPreviousC = 0,
                 printed = [], queries = []\<rparr>))"

subsection \<open>Facts about the parser loop\<close>

text \<open>
  \<open>source_offset src tp i\<close> is the value of the variable \<^verbatim>\<open>k\<close> of \<^verbatim>\<open>parseBLZ\<close> at the start of
  step \<open>i\<close> of the cost loop, for a phrase with source \<open>src\<close> found at \<open>tp\<close>: it starts at 0,
  advances by one in each step and goes back to 0 when \<open>src + k\<close> reaches \<open>tp\<close>.
\<close>

fun source_offset :: "nat \<Rightarrow> nat \<Rightarrow> nat \<Rightarrow> nat" where
  "source_offset src tp 0 = 0"
| "source_offset src tp (Suc i) =
     (if src + (source_offset src tp i + 1) = tp then 0 else source_offset src tp i + 1)"

lemma source_offset_below: "src < tp \<Longrightarrow> src + source_offset src tp i < tp"
  by (induction i) auto

lemma wr_Inr_iff: "wr xs i v = Inr ys \<longleftrightarrow> i < length xs \<and> ys = xs[i := v]"
  by (auto simp: wr_def)

lemma rd_Inr_iff: "rd xs i = Inr v \<longleftrightarrow> i < length xs \<and> v = xs ! i"
  by (auto simp: rd_def)

lemma update_costs_post:
  assumes "update_costs t tp cp i k pc = Inr (t', pc')"
  shows "length (costArray t') = length (costArray t) \<and>
         length (segm t') = length (segm t) \<and>
         (\<forall>p. p < tp + i \<longrightarrow> costArray t' ! p = costArray t ! p \<and> segm t' ! p = segm t ! p) \<and>
         (\<forall>p. tp + mlength cp \<le> p \<longrightarrow> costArray t' ! p = costArray t ! p \<and> segm t' ! p = segm t ! p) \<and>
         (\<forall>j. i \<le> j \<and> j < mlength cp \<longrightarrow>
            tp + j < length (costArray t) \<and> costArray t' ! (tp + j) \<le> COST t \<and>
            (tp + j < length (segm t) \<longrightarrow> segm t' ! (tp + j) = costArray t' ! (tp + j)))"
  using assms
proof (induction t tp cp i k pc rule: update_costs.induct)
  case (1 t tp cp i k pc)
  show ?case
  proof (cases "i < mlength cp")
    case False
    with "1.prems" show ?thesis by (simp add: update_costs.simps)
  next
    case True
    from "1.prems" True obtain u ca d prevC where
      u: "rd (costArray t) (mpos cp + k) = Inr u"
      and ca: "wr (costArray t) (tp + i) (u + 1) = Inr ca"
      and ok: "u + 1 \<le> COST t"
      and rec: "update_costs
              (t\<lparr>costArray := ca, D_arr := d, segm := segmUpdate (segm t) (tp + i) (u + 1)\<rparr>)
              tp cp (i + 1) (if mpos cp + (k + 1) = tp then 0 else k + 1) prevC = Inr (t', pc')"
      by (rule update_costs_unfold)
    let ?t1 = "t\<lparr>costArray := ca, D_arr := d, segm := segmUpdate (segm t) (tp + i) (u + 1)\<rparr>"
    from ok have nok: "\<not> COST t < u + 1" by simp
    note IH = "1.IH" [OF True nok rec]
    from ca have bound: "tp + i < length (costArray t)" and ca_eq: "ca = (costArray t)[tp + i := u + 1]"
      by (simp_all add: wr_Inr_iff)
    have len: "length (costArray t') = length (costArray t)" "length (segm t') = length (segm t)"
      using IH ca_eq by (simp_all add: segmUpdate_def)
    have below: "\<forall>p. p < tp + i \<longrightarrow> costArray t' ! p = costArray t ! p \<and> segm t' ! p = segm t ! p"
      using IH ca_eq by (simp add: segmUpdate_def)
    have above: "\<forall>p. tp + mlength cp \<le> p \<longrightarrow> costArray t' ! p = costArray t ! p \<and> segm t' ! p = segm t ! p"
      using IH ca_eq True by (simp add: segmUpdate_def)
    have here: "costArray t' ! (tp + i) = u + 1"
      using IH ca_eq bound by simp
    have here_s: "tp + i < length (segm t) \<Longrightarrow> segm t' ! (tp + i) = u + 1"
      using IH by (simp add: segmUpdate_def)
    have rest: "\<forall>j. i \<le> j \<and> j < mlength cp \<longrightarrow>
            tp + j < length (costArray t) \<and> costArray t' ! (tp + j) \<le> COST t \<and>
            (tp + j < length (segm t) \<longrightarrow> segm t' ! (tp + j) = costArray t' ! (tp + j))"
    proof (intro allI impI)
      fix j assume j: "i \<le> j \<and> j < mlength cp"
      show "tp + j < length (costArray t) \<and> costArray t' ! (tp + j) \<le> COST t \<and>
            (tp + j < length (segm t) \<longrightarrow> segm t' ! (tp + j) = costArray t' ! (tp + j))"
      proof (cases "j = i")
        case True
        with bound here here_s ok show ?thesis by simp
      next
        case False
        with j have "i + 1 \<le> j \<and> j < mlength cp" by simp
        with IH ca_eq show ?thesis by (simp add: segmUpdate_def)
      qed
    qed
    from len below above rest show ?thesis by blast
  qed
qed

lemma source_offset_no_wrap: "tp \<le> src \<Longrightarrow> source_offset src tp i = i"
  by (induction i) auto

lemma source_offset_not_written:
  "i < j \<Longrightarrow> src + source_offset src tp j \<noteq> tp + i"
proof (cases "src < tp")
  case True
  from source_offset_below [OF this, of j] show ?thesis by simp
next
  case False
  then have "source_offset src tp j = j" by (simp add: source_offset_no_wrap)
  moreover assume "i < j"
  ultimately show ?thesis using False by simp
qed

lemma update_costs_recurrence:
  assumes "update_costs t tp cp i k pc = Inr (t', pc')"
    and "k = source_offset (mpos cp) tp i"
  shows "\<forall>j. i \<le> j \<and> j < mlength cp \<longrightarrow>
           costArray t' ! (tp + j) = costArray t ! (mpos cp + source_offset (mpos cp) tp j) + 1"
  using assms
proof (induction t tp cp i k pc rule: update_costs.induct)
  case (1 t tp cp i k pc)
  show ?case
  proof (cases "i < mlength cp")
    case False
    then show ?thesis by simp
  next
    case True
    from "1.prems"(1) True obtain u ca d prevC where
      u: "rd (costArray t) (mpos cp + k) = Inr u"
      and ca: "wr (costArray t) (tp + i) (u + 1) = Inr ca"
      and ok: "u + 1 \<le> COST t"
      and rec: "update_costs
              (t\<lparr>costArray := ca, D_arr := d, segm := segmUpdate (segm t) (tp + i) (u + 1)\<rparr>)
              tp cp (i + 1) (if mpos cp + (k + 1) = tp then 0 else k + 1) prevC = Inr (t', pc')"
      by (rule update_costs_unfold)
    from ok have nok: "\<not> COST t < u + 1" by simp
    have k': "(if mpos cp + (k + 1) = tp then 0 else k + 1) = source_offset (mpos cp) tp (i + 1)"
      using "1.prems"(2) by simp
    note IH = "1.IH" [OF True nok rec k']
    from ca have bound: "tp + i < length (costArray t)" and ca_eq: "ca = (costArray t)[tp + i := u + 1]"
      by (simp_all add: wr_Inr_iff)
    from u have u_eq: "u = costArray t ! (mpos cp + source_offset (mpos cp) tp i)"
      using "1.prems"(2) by (simp add: rd_Inr_iff)
    have here: "costArray t' ! (tp + i) = u + 1"
      using update_costs_post [OF rec] ca_eq bound by simp
    show ?thesis
    proof (intro allI impI)
      fix j assume j: "i \<le> j \<and> j < mlength cp"
      show "costArray t' ! (tp + j) = costArray t ! (mpos cp + source_offset (mpos cp) tp j) + 1"
      proof (cases "j = i")
        case True
        with here u_eq show ?thesis by simp
      next
        case False
        with j have lt: "i < j" and "i + 1 \<le> j \<and> j < mlength cp" by simp_all
        with IH have "costArray t' ! (tp + j) = ca ! (mpos cp + source_offset (mpos cp) tp j) + 1"
          by simp
        moreover have "mpos cp + source_offset (mpos cp) tp j \<noteq> tp + i"
          by (rule source_offset_not_written [OF lt])
        ultimately show ?thesis using ca_eq by simp
      qed
    qed
  qed
qed

text \<open>What one iteration of the parser does to the cost array and to the segment tree.\<close>

lemma parse_iteration_costs:
  assumes "parse_iteration fuel st = Inr st'"
  obtains cp lit where
    "ST_FindSubstring fuel (ptree st) (drop (ptextPos st - 1) (tree_string (ptree st)))
       (length_t (ptree st)) = Inr cp"
    "printed st' = printed st @ [(int (mpos cp) - 1, mlength cp, lit)]"
    "queries st' = queries st @ [(ptextPos st, length_t (ptree st))]"
    "ptextPos st' = ptextPos st + mlength cp + 1"
    "COST (ptree st') = COST (ptree st)"
    "length_t (ptree st') = length_t (ptree st)"
    "length (costArray (ptree st')) = length (costArray (ptree st))"
    "length (segm (ptree st')) = length (segm (ptree st))"
    "\<forall>p. p < ptextPos st \<longrightarrow> costArray (ptree st') ! p = costArray (ptree st) ! p"
    "\<forall>j. j < mlength cp \<longrightarrow> costArray (ptree st') ! (ptextPos st + j) \<le> COST (ptree st)"
    "ptextPos st + mlength cp < length (costArray (ptree st))"
    "costArray (ptree st') ! (ptextPos st + mlength cp) = 0"
    "\<forall>j. j \<le> mlength cp \<longrightarrow> ptextPos st + j < length (segm (ptree st)) \<longrightarrow>
       segm (ptree st') ! (ptextPos st + j) = costArray (ptree st') ! (ptextPos st + j)"
    "\<forall>j. j < mlength cp \<longrightarrow>
       costArray (ptree st') ! (ptextPos st + j) =
       costArray (ptree st) ! (mpos cp + source_offset (mpos cp) (ptextPos st) j) + 1"
proof -
  from assms obtain cp t2 prevC t3 lit where
    q: "ST_FindSubstring fuel (ptree st) (drop (ptextPos st - 1) (tree_string (ptree st)))
       (length_t (ptree st)) = Inr cp"
    and pu: "parse_update st cp = Inr (t2, prevC)"
    and pa: "propagateAnnotation fuel (ptextPos st) (mlength cp) t2 = Inr t3"
    and st': "st' = \<lparr>ptree = t3, ptextPos = ptextPos st + mlength cp + 1, z = z st + 1,
             positionOfPreviousC = prevC,
             printed = printed st @ [(int (mpos cp) - 1, mlength cp, lit)],
             queries = queries st @ [(ptextPos st, length_t (ptree st))]\<rparr>"
    by (rule parse_iteration_unfold)
  from pu obtain t1 ca where
    uc: "update_costs (ptree st) (ptextPos st) cp 0 0 (positionOfPreviousC st) = Inr (t1, prevC)"
    and ca: "wr (costArray t1) (ptextPos st + mlength cp) 0 = Inr ca"
    and t2: "t2 = t1\<lparr>costArray := ca,
                       segm := segmUpdate (segm t1) (ptextPos st + mlength cp) 0\<rparr>"
    by (rule parse_update_unfold)
  let ?t = "ptree st" and ?tp = "ptextPos st" and ?L = "mlength cp"
  note fr = frame_fields [OF frame_propagateAnnotation [OF pa]]
  note post = update_costs_post [OF uc]
  note flds = update_costs_fields [OF uc]
  from ca have bound: "?tp + ?L < length (costArray t1)" and ca_eq: "ca = (costArray t1)[?tp + ?L := 0]"
    by (simp_all add: wr_Inr_iff)
  have U3: "costArray t3 = (costArray t1)[?tp + ?L := 0]"
    using fr(2) t2 ca_eq by simp
  have S3: "segm t3 = (segm t1)[?tp + ?L := 0]"
    using fr(5) t2 by (simp add: segmUpdate_def)
  have 1: "printed st' = printed st @ [(int (mpos cp) - 1, mlength cp, lit)]"
    "queries st' = queries st @ [(ptextPos st, length_t (ptree st))]"
    "ptextPos st' = ptextPos st + mlength cp + 1"
    using st' by simp_all
  have 2: "COST (ptree st') = COST ?t" "length_t (ptree st') = length_t ?t"
    using st' fr(1,4) t2 flds by simp_all
  have 3: "length (costArray (ptree st')) = length (costArray ?t)"
    "length (segm (ptree st')) = length (segm ?t)"
    using st' U3 S3 post by simp_all
  have 4: "\<forall>p. p < ?tp \<longrightarrow> costArray (ptree st') ! p = costArray ?t ! p"
    using st' U3 post by simp
  have 5: "\<forall>j. j < ?L \<longrightarrow> costArray (ptree st') ! (?tp + j) \<le> COST ?t"
    using st' U3 post by simp
  have 6: "?tp + ?L < length (costArray ?t)" "costArray (ptree st') ! (?tp + ?L) = 0"
    using st' U3 bound post by simp_all
  have 7: "\<forall>j. j \<le> ?L \<longrightarrow> ?tp + j < length (segm ?t) \<longrightarrow>
       segm (ptree st') ! (?tp + j) = costArray (ptree st') ! (?tp + j)"
  proof (intro allI impI)
    fix j assume j: "j \<le> ?L" and b: "?tp + j < length (segm ?t)"
    show "segm (ptree st') ! (?tp + j) = costArray (ptree st') ! (?tp + j)"
    proof (cases "j = ?L")
      case True
      with st' U3 S3 bound b post show ?thesis by simp
    next
      case False
      with j have "j < ?L" by simp
      with st' U3 S3 b post show ?thesis by simp
    qed
  qed
  have 8: "\<forall>j. j < ?L \<longrightarrow>
       costArray (ptree st') ! (?tp + j) =
       costArray ?t ! (mpos cp + source_offset (mpos cp) ?tp j) + 1"
    using update_costs_recurrence [OF uc] st' U3 by simp
  from that [OF q 1 2 3 4 5 6 7 8] show thesis .
qed

lemma parse_loop_invariant:
  assumes "parse_loop fuel st = Inr st'"
    and "\<forall>p. 1 \<le> p \<and> p < ptextPos st \<longrightarrow>
           p < length (costArray (ptree st)) \<and> costArray (ptree st) ! p \<le> COST (ptree st)"
    and "\<forall>q \<in> set (queries st). snd q = length_t (ptree st)"
  shows "COST (ptree st') = COST (ptree st) \<and> length_t (ptree st') = length_t (ptree st) \<and>
         length_t (ptree st') < ptextPos st' \<and>
         (\<forall>p. 1 \<le> p \<and> p < ptextPos st' \<longrightarrow>
            p < length (costArray (ptree st')) \<and> costArray (ptree st') ! p \<le> COST (ptree st')) \<and>
         (\<forall>q \<in> set (queries st'). snd q = length_t (ptree st))"
  using assms
proof (induction fuel st rule: parse_loop.induct)
  case (1 fuel st)
  show ?case
  proof (cases "ptextPos st \<le> length_t (ptree st)")
    case False
    with "1.prems" show ?thesis by (simp add: parse_loop.simps)
  next
    case True
    with "1.prems"(1) obtain st1 where
      it: "parse_iteration fuel st = Inr st1" and rest: "parse_loop fuel st1 = Inr st'"
      by (subst (asm) parse_loop.simps) (auto simp: ebind_Inr_iff)
    from it obtain cp lit where
      "ST_FindSubstring fuel (ptree st) (drop (ptextPos st - 1) (tree_string (ptree st)))
         (length_t (ptree st)) = Inr cp"
      "printed st1 = printed st @ [(int (mpos cp) - 1, mlength cp, lit)]"
      and f: "queries st1 = queries st @ [(ptextPos st, length_t (ptree st))]"
      "ptextPos st1 = ptextPos st + mlength cp + 1"
      "COST (ptree st1) = COST (ptree st)"
      "length_t (ptree st1) = length_t (ptree st)"
      "length (costArray (ptree st1)) = length (costArray (ptree st))"
      and "length (segm (ptree st1)) = length (segm (ptree st))"
      and g: "\<forall>p. p < ptextPos st \<longrightarrow> costArray (ptree st1) ! p = costArray (ptree st) ! p"
      "\<forall>j. j < mlength cp \<longrightarrow> costArray (ptree st1) ! (ptextPos st + j) \<le> COST (ptree st)"
      "ptextPos st + mlength cp < length (costArray (ptree st))"
      "costArray (ptree st1) ! (ptextPos st + mlength cp) = 0"
      by (rule parse_iteration_costs)
    have inv1: "\<forall>p. 1 \<le> p \<and> p < ptextPos st1 \<longrightarrow>
           p < length (costArray (ptree st1)) \<and> costArray (ptree st1) ! p \<le> COST (ptree st1)"
    proof (intro allI impI)
      fix p assume p: "1 \<le> p \<and> p < ptextPos st1"
      consider "p < ptextPos st" | "ptextPos st \<le> p" "p < ptextPos st + mlength cp"
        | "p = ptextPos st + mlength cp"
        using p f(2) by linarith
      then show "p < length (costArray (ptree st1)) \<and> costArray (ptree st1) ! p \<le> COST (ptree st1)"
      proof cases
        case 1
        with p "1.prems"(2) f g show ?thesis by simp
      next
        case 2
        then obtain j where "p = ptextPos st + j" "j < mlength cp"
          by (metis add_diff_inverse_nat less_diff_conv2 linorder_not_less add.commute)
        with f g show ?thesis by simp
      next
        case 3
        with f g show ?thesis by simp
      qed
    qed
    have q1: "\<forall>q \<in> set (queries st1). snd q = length_t (ptree st1)"
      using "1.prems"(3) f by auto
    from "1.IH" [OF True it rest inv1 q1] f show ?thesis by auto
  qed
qed


subsection \<open>Facts about the construction\<close>

lemma keepsI_upd:
  "keeps (f t) g m \<Longrightarrow> kept t (f t) \<Longrightarrow> keeps t g m"
  by (simp add: keeps_def kept_def)

lemma keeps_phases_loop: "keeps t (\<lambda>x. x) (phases_loop fuel t pos phase ext rep)"
proof (induction fuel t pos phase ext rep rule: phases_loop.induct)
  case (1 fuel t pos phase extension repeated_extension)
  show ?case
    apply (subst phases_loop.simps)
    apply (intro keeps_if keeps_seq_pair keeps_SPA keeps_case_prod keeps_Inr)
     apply (rule "1.IH")
        apply simp_all
    done
qed

lemma keeps_dfs:
  "keeps t fst (dfsForInversePointers fuel node t depth)"
  "keeps t fst (dfs_children fuel child t depth num)"
proof (induction fuel node t depth and fuel child t depth num
    rule: dfsForInversePointers_dfs_children.induct)
  case (1 node t depth)
  show ?case by (simp add: keeps_Inl)
next
  case (2 fuel node t depth)
  show ?case
    unfolding dfsForInversePointers.simps
    apply (intro keeps_seq_tree keeps_modify_node keeps_pure keeps_if keeps_Inr)
     apply (simp add: set_node_def)
    apply (rule keepsI_upd [where f = "\<lambda>t. set_node t _ _"])
     apply (rule "2.IH")
       apply (simp_all add: set_node_def)
    done
next
  case (3 child t depth num)
  show ?case by (simp add: keeps_Inl)
next
  case (4 fuel child t depth num)
  show ?case
    unfolding dfs_children.simps
    apply (intro keeps_if keeps_Inr)
     apply simp
    apply (rule keeps_pure)
    apply (rule keeps_seq_pair)
     apply (rule "4.IH"(1))
      apply simp
     apply simp
    apply (rule keeps_pure)
    apply (rule "4.IH"(2))
       apply simp_all
    done
qed

lemma ST_CreateTree_length_t:
  assumes "ST_CreateTree fuel hp cells str len = Inr t"
  shows "length_t t = len + 1"
proof -
  let ?t0 = "\<lparr>nodes = [null_node], root = 0, e_end = 0, length_t = len + 1,
                  tree_string = str, inversePointers = replicate (len + 2) 0,
                  costArray = replicate (len + 2) (len + 1),
                  maxStrDepth = replicate (len + 2) None, D_arr = [], COST = 0,
                  segm = segmCreate (replicate (len + 2) (len + 1)) (len + 1),
                  suffixless = 0, heap_left = hp - 1, heap_cells = cells\<rparr>"
  from assms obtain t1 r t2 son t3 t4 t5 nn msd where
    c1: "create_node ?t0 0 0 0 0 = Inr (t1, r)"
    and c2: "create_node (t1\<lparr>root := r\<rparr>) r 1 (len + 1) 1 = Inr (t2, son)"
    and m: "modify_node t2 r (\<lambda>n. n\<lparr>sons := son\<rparr>) = Inr t3"
    and ph: "phases_loop fuel (t3\<lparr>suffixless := 0\<rparr>) (r, 0) 2 2 False = Inr t4"
    and dfs: "dfsForInversePointers fuel (root t4) t4 0 = Inr (t5, nn)"
    and t: "t = t5\<lparr>maxStrDepth := msd, D_arr := replicate (length_t t5 + 1) (- 1)\<rparr>"
    unfolding ST_CreateTree_def
    by (auto simp: ebind_Inr_iff split: if_splits)
  have "length_t t1 = len + 1"
    using keepsD [OF keeps_create_node c1] by simp
  then have "length_t t2 = len + 1"
    using keepsD [OF keeps_create_node c2] by simp
  then have "length_t t3 = len + 1"
    using keepsD [OF keeps_modify_node m] by simp
  then have "length_t t4 = len + 1"
    using keepsD [OF keeps_phases_loop ph] by simp
  then have "length_t t5 = len + 1"
    using keepsD [OF keeps_dfs(1) dfs] by simp
  with t show ?thesis by simp
qed


subsection \<open>Facts about the program\<close>

lemma main_unfold:
  assumes "main fuel env = Inr st"
  obtains bytes t where
    "input_file env = Some bytes"
    "ST_CreateTree fuel (heap env - 1) (memory env) (bytes @ [0]) (length bytes) = Inr t"
    "parseBLZ fuel (t\<lparr>COST := maxc env\<rparr>) = Inr st"
  using assms unfolding main_def
  by (auto simp: ebind_Inr_iff split: if_splits option.splits)

lemma main_invariant:
  assumes "main fuel env = Inr st" and "input_file env = Some bytes"
  shows "COST (ptree st) = maxc env \<and> length_t (ptree st) = length bytes + 1 \<and>
         length bytes + 1 < ptextPos st \<and>
         (\<forall>p. 1 \<le> p \<and> p < ptextPos st \<longrightarrow>
            p < length (costArray (ptree st)) \<and> costArray (ptree st) ! p \<le> maxc env) \<and>
         (\<forall>q \<in> set (queries st). snd q = length bytes + 1)"
proof -
  from assms obtain t where
    ct: "ST_CreateTree fuel (heap env - 1) (memory env) (bytes @ [0]) (length bytes) = Inr t"
    and p: "parseBLZ fuel (t\<lparr>COST := maxc env\<rparr>) = Inr st"
    by (auto elim: main_unfold)
  have len: "length_t t = length bytes + 1"
    by (rule ST_CreateTree_length_t [OF ct])
  from parse_loop_invariant [OF p [unfolded parseBLZ_def]] len show ?thesis
    by auto
qed

subsection \<open>Evaluation on concrete inputs\<close>

text \<open>
  Concrete runs are evaluated by rewriting. The congruence rule \<open>ebind_weak_cong\<close> makes
  the simplifier evaluate the first argument of \<open>ebind\<close> before it looks at the
  continuation, so that the recursive equations of the loops are unfolded only as far as the
  run goes.
\<close>

lemma ebind_Inr [simp]: "ebind (Inr x) f = f x"
  by (simp add: ebind_def)

lemma ebind_Inl [simp]: "ebind (Inl x) f = Inl x"
  by (simp add: ebind_def)

lemma ebind_weak_cong: "m = m' \<Longrightarrow> ebind m f = ebind m' f"
  by simp

lemmas eval_loops =
  scan_edge.simps D_loop.simps update_costs.simps compare_edge.simps SPA_loop.simps
  phases_loop.simps monotone_loop.simps parse_loop.simps

lemmas eval_defs = rd_def wr_def rd_init_def node_at_def ts_at_def find_son_def
  get_node_label_end_def get_node_label_length_def is_last_char_in_edge_def
  ST_FindSubstring_def segmCreate_def segmUpdate_def cappedMax_def set_node_def
  getMinMaxOfChildren_def candidate_cost_def range_fits_def commit_def commit_step_def
  adopt_def optimistic_step_def changeAnnotationFromLeaf_def propagateAnnotation_def
  parse_update_def parse_iteration_def parseBLZ_def create_node_def modify_node_def
  connect_siblings_def apply_extension_rule_2_def trace_single_edge_def trace_string_def
  follow_suffix_link_def create_suffix_link_def link_suffixless_def SEA_def SPA_def
  child_depth_def null_node_def ST_CreateTree_def main_def exit_status_def UNSET_def Let_def

text \<open>Unfolding at numerals, for the functions defined by recursion over \<open>Suc\<close> and for
  lists given by \<open>replicate\<close> and updated at numeral positions.\<close>

lemma propagate_loop_numeral:
  "propagate_loop fuel tp len t cur (numeral k) =
     ebind (rd (costArray t) (numeral k)) (\<lambda>u.
       let cur' = (if cur < u then u else cur) in
       ebind (rd_init (maxStrDepth t) (numeral k)) (\<lambda>m.
         if m < tp then Inr t
         else
           ebind (changeAnnotationFromLeaf fuel (numeral k) (tp + len)
                    (int tp - int (numeral k)) cur' t) (\<lambda>t'.
             propagate_loop fuel tp len t' cur' (pred_numeral k))))"
  using propagate_loop.simps(2) [of fuel tp len t cur "pred_numeral k"]
  by (simp only: numeral_eq_Suc)

lemma replicate_numeral_eval: "replicate (numeral k) x = x # replicate (pred_numeral k) x"
  by (simp add: numeral_eq_Suc)

lemma list_update_numeral_eval: "(x # xs)[numeral k := y] = x # xs[pred_numeral k := y]"
  by (simp add: numeral_eq_Suc)

definition fuel12 :: nat where
  "fuel12 = Suc (Suc (Suc (Suc (Suc (Suc (Suc (Suc (Suc (Suc (Suc (Suc 0)))))))))))"

definition mk_node ::
  "nat \<Rightarrow> nat \<Rightarrow> nat \<Rightarrow> nat \<Rightarrow> nat \<Rightarrow> nat \<Rightarrow> nat \<Rightarrow> nat \<Rightarrow> nat \<Rightarrow> nat \<Rightarrow> nat \<Rightarrow> nat \<Rightarrow> nat \<Rightarrow> NODE" where
  "mk_node s r l k f p a b d m tp om otp =
     \<lparr>sons = s, right_sibling = r, left_sibling = l, suffix_link = k, father = f,
      path_position = p, edge_label_start = a, edge_label_end = b, strDepth = d,
      annot = \<lparr>minMax = m, textPos = tp, optimisticMinMax = om, optimisticTextPos = otp\<rparr>\<rparr>"

text \<open>The content of the memory that \<^verbatim>\<open>malloc\<close> returns in the runs below: every field of
  the cell for index \<open>k\<close> holds \<open>k\<close>.\<close>

definition junk :: "nat \<Rightarrow> NODE" where
  "junk k = mk_node k k k k k k k k k k k k k"

lemmas eval_rules = eval_defs eval_loops fuel12_def mk_node_def junk_def propagate_loop_numeral
  replicate_numeral_eval list_update_numeral_eval

subsection \<open>The states of a run\<close>

text \<open>A run of \<^verbatim>\<open>main\<close> is its first \<open>n\<close> iterations followed by the rest of the loop.\<close>

lemma ebind_assoc: "ebind (ebind m f) g = ebind m (\<lambda>x. ebind (f x) g)"
  by (cases m) simp_all

lemma parse_loop_steps: "parse_loop fuel st = ebind (parse_steps fuel n st) (parse_loop fuel)"
proof (induction n arbitrary: st)
  case 0
  show ?case by simp
next
  case (Suc n)
  show ?case
  proof (cases "ptextPos st \<le> length_t (ptree st)")
    case True
    have "ebind (parse_iteration fuel st) (parse_loop fuel) =
          ebind (parse_iteration fuel st) (\<lambda>s. ebind (parse_steps fuel n s) (parse_loop fuel))"
      by (rule arg_cong [where f = "ebind (parse_iteration fuel st)"]) (rule ext, rule Suc.IH)
    with True show ?thesis
      by (subst parse_loop.simps) (simp add: ebind_assoc)
  next
    case False
    then show ?thesis
      by (subst (1 2) parse_loop.simps) simp
  qed
qed

lemma main_steps_prefix: "main fuel env = ebind (main_steps fuel n env) (parse_loop fuel)"
proof -
  have "parseBLZ fuel t = ebind (parse_steps fuel n
          \<lparr>ptree = t, ptextPos = 1, z = 0, positionOfPreviousC = 0,
           printed = [], queries = []\<rparr>) (parse_loop fuel)" for t
    unfolding parseBLZ_def by (rule parse_loop_steps)
  then show ?thesis
    by (simp add: main_def main_steps_def ebind_assoc split: option.splits)
qed

subsection \<open>Reference runs\<close>

text \<open>
  The text \<open>abbb\<close> (bytes 1, 2, 2, 2) with cost bound 1. The program prints the phrases
  \<open>(-1, 0, 1)\<close>, \<open>(-1, 0, 2)\<close> and \<open>(1, 2, 0)\<close>; the third phrase copies two bytes from
  position 2 to position 3 and overlaps itself. \<open>state_abbb_1\<close> and \<open>state_abbb_2\<close> are the
  states of the parser after one and after two iterations, \<open>state_abbb_3\<close> its state at the
  end, with the tree \<open>tree_abbb\<close>. \<open>mk_node\<close> lists the fields of a node in the order of the
  record.
\<close>

definition tree_abbb :: SUFFIX_TREE where
  "tree_abbb =
     \<lparr>nodes =
        [mk_node 0 0 0 0 0 0 0 0 0 0 0 0 0,
         mk_node 2 0 0 0 0 0 0 0 0 0 5 0 5,
         mk_node 0 6 0 0 1 1 1 5 5 4294967295 1 4294967295 1,
         mk_node 0 5 0 0 4 2 4 3 2 1 2 1 2,
         mk_node 3 7 0 6 6 2 3 3 2 1 2 1 2,
         mk_node 0 0 3 0 4 3 5 5 3 1 3 1 3,
         mk_node 4 8 2 1 1 2 2 2 1 0 2 0 2,
         mk_node 0 0 4 0 6 4 5 5 2 1 4 1 4,
         mk_node 0 0 6 0 1 5 5 5 1 0 5 0 5],
      root = 1, e_end = 5, length_t = 5,
      tree_string = [1, 2, 2, 2, 0],
      inversePointers = [0, 2, 3, 5, 7, 8],
      costArray = [5, 0, 0, 1, 1, 0],
      maxStrDepth = [None, Some 0, Some 3, Some 4, Some 4, Some 4],
      D_arr = [- 1, 2, 1, 0, 0, - 1], COST = 1,
      segm = [5, 0, 0, 1, 1, 0],
      suffixless = 0, heap_left = 90, heap_cells = junk\<rparr>"

definition state_abbb_1 :: parser where
  "state_abbb_1 =
     \<lparr>ptree = \<lparr>nodes =
          [mk_node 0 0 0 0 0 0 0 0 0 0 0 0 0,
           mk_node 2 0 0 0 0 0 0 0 0 4294967295 0 4294967295 0,
           mk_node 0 6 0 0 1 1 1 5 5 4294967295 1 4294967295 1,
           mk_node 0 5 0 0 4 2 4 3 2 4294967295 2 4294967295 2,
           mk_node 3 7 0 6 6 2 3 3 2 4294967295 0 4294967295 0,
           mk_node 0 0 3 0 4 3 5 5 3 4294967295 3 4294967295 3,
           mk_node 4 8 2 1 1 2 2 2 1 4294967295 0 4294967295 0,
           mk_node 0 0 4 0 6 4 5 5 2 4294967295 4 4294967295 4,
           mk_node 0 0 6 0 1 5 5 5 1 4294967295 5 4294967295 5],
        root = 1, e_end = 5, length_t = 5,
        tree_string = [1, 2, 2, 2, 0],
        inversePointers = [0, 2, 3, 5, 7, 8],
        costArray = [5, 0, 5, 5, 5, 5],
        maxStrDepth = [None, Some 0, Some 3, Some 4, Some 4, Some 4],
        D_arr = [- 1, - 1, - 1, - 1, - 1, - 1], COST = 1,
        segm = [5, 0, 5, 5, 5, 5],
        suffixless = 0, heap_left = 90, heap_cells = junk\<rparr>,
      ptextPos = 2, z = 1, positionOfPreviousC = 0,
      printed = [(- 1, 0, 1)],
      queries = [(1, 5)]\<rparr>"

definition state_abbb_2 :: parser where
  "state_abbb_2 =
     \<lparr>ptree = \<lparr>nodes =
          [mk_node 0 0 0 0 0 0 0 0 0 0 0 0 0,
           mk_node 2 0 0 0 0 0 0 0 0 4294967295 0 4294967295 0,
           mk_node 0 6 0 0 1 1 1 5 5 4294967295 1 4294967295 1,
           mk_node 0 5 0 0 4 2 4 3 2 0 2 0 2,
           mk_node 3 7 0 6 6 2 3 3 2 4294967295 0 0 2,
           mk_node 0 0 3 0 4 3 5 5 3 4294967295 3 4294967295 3,
           mk_node 4 8 2 1 1 2 2 2 1 0 2 0 2,
           mk_node 0 0 4 0 6 4 5 5 2 4294967295 4 4294967295 4,
           mk_node 0 0 6 0 1 5 5 5 1 4294967295 5 4294967295 5],
        root = 1, e_end = 5, length_t = 5,
        tree_string = [1, 2, 2, 2, 0],
        inversePointers = [0, 2, 3, 5, 7, 8],
        costArray = [5, 0, 0, 5, 5, 5],
        maxStrDepth = [None, Some 0, Some 3, Some 4, Some 4, Some 4],
        D_arr = [- 1, - 1, - 1, - 1, - 1, - 1], COST = 1,
        segm = [5, 0, 0, 5, 5, 5],
        suffixless = 0, heap_left = 90, heap_cells = junk\<rparr>,
      ptextPos = 3, z = 2, positionOfPreviousC = 0,
      printed = [(- 1, 0, 1), (- 1, 0, 2)],
      queries = [(1, 5), (2, 5)]\<rparr>"

definition state_abbb_3 :: parser where
  "state_abbb_3 =
     \<lparr>ptree = tree_abbb,
      ptextPos = 6, z = 3, positionOfPreviousC = 4,
      printed = [(- 1, 0, 1), (- 1, 0, 2), (1, 2, 0)],
      queries = [(1, 5), (2, 5), (3, 5)]\<rparr>"

lemma reach_abbb_1:
  "main_steps fuel12 (Suc 0)
     \<lparr>argc = 3, input_file = Some [1, 2, 2, 2], maxc = 1, heap = 100, memory = junk\<rparr> = Inr state_abbb_1"
  by (simp add: eval_rules main_steps_def state_abbb_1_def cong: ebind_weak_cong)

lemma step_abbb_2: "parse_iteration fuel12 state_abbb_1 = Inr state_abbb_2"
  by (simp add: eval_rules state_abbb_1_def state_abbb_2_def cong: ebind_weak_cong)

lemma reach_abbb_2:
  "main_steps fuel12 (Suc (Suc 0))
     \<lparr>argc = 3, input_file = Some [1, 2, 2, 2], maxc = 1, heap = 100, memory = junk\<rparr> = Inr state_abbb_2"
  by (simp add: eval_rules main_steps_def state_abbb_2_def cong: ebind_weak_cong)

lemma step_abbb_3: "parse_iteration fuel12 state_abbb_2 = Inr state_abbb_3"
  by (simp add: eval_rules state_abbb_2_def state_abbb_3_def tree_abbb_def
      cong: ebind_weak_cong)

lemma run_abbb:
  "main fuel12 \<lparr>argc = 3, input_file = Some [1, 2, 2, 2], maxc = 1, heap = 100, memory = junk\<rparr> =
     Inr state_abbb_3"
  by (simp add: eval_rules state_abbb_3_def tree_abbb_def cong: ebind_weak_cong)

text \<open>
  The text \<open>abaaaba\<close> (bytes 1, 2, 1, 1, 1, 2, 1) with cost bound 1. \<open>state_abaaaba_3\<close> is the
  state of the parser after three iterations, which print \<open>(-1, 0, 1)\<close>, \<open>(-1, 0, 2)\<close> and
  \<open>(0, 1, 1)\<close>; the fourth phrase is \<open>(0, 2, 1)\<close>.
\<close>

definition state_abaaaba_3 :: parser where
  "state_abaaaba_3 =
     \<lparr>ptree = \<lparr>nodes =
          [mk_node 0 0 0 0 0 0 0 0 0 0 0 0 0,
           mk_node 4 0 0 0 0 0 0 0 0 0 4 0 4,
           mk_node 0 9 0 0 8 1 4 8 8 1 1 1 1,
           mk_node 0 11 0 0 10 2 4 3 2 1 2 1 2,
           mk_node 8 10 0 1 1 1 1 1 1 0 1 0 1,
           mk_node 0 7 0 0 6 3 5 4 2 1 3 1 3,
           mk_node 5 12 8 4 4 3 4 4 2 1 3 0 4,
           mk_node 0 0 5 0 6 4 6 6 3 0 4 0 4,
           mk_node 2 6 0 10 4 1 2 3 3 1 1 1 1,
           mk_node 0 0 2 0 8 5 8 8 4 4294967295 5 4294967295 5,
           mk_node 3 13 4 4 1 2 2 3 2 1 2 1 2,
           mk_node 0 0 3 0 10 6 8 8 3 4294967295 6 4294967295 6,
           mk_node 0 0 6 0 4 7 8 8 2 4294967295 7 4294967295 7,
           mk_node 0 0 10 0 1 8 8 8 1 4294967295 8 4294967295 8],
        root = 1, e_end = 8, length_t = 8,
        tree_string = [1, 2, 1, 1, 1, 2, 1, 0],
        inversePointers = [0, 2, 3, 5, 7, 9, 11, 12, 13],
        costArray = [8, 0, 0, 1, 0, 8, 8, 8, 8],
        maxStrDepth = [None, Some 3, Some 3, Some 4, Some 5, Some 7, Some 7, Some 7, Some 7],
        D_arr = [- 1, 2, 1, 0, - 1, - 1, - 1, - 1, - 1], COST = 1,
        segm = [8, 0, 0, 1, 0, 8, 8, 8, 8],
        suffixless = 0, heap_left = 85, heap_cells = junk\<rparr>,
      ptextPos = 5, z = 3, positionOfPreviousC = 3,
      printed = [(- 1, 0, 1), (- 1, 0, 2), (0, 1, 1)],
      queries = [(1, 8), (2, 8), (3, 8)]\<rparr>"

lemma reach_abaaaba_3:
  "main_steps fuel12 (Suc (Suc (Suc 0)))
     \<lparr>argc = 3, input_file = Some [1, 2, 1, 1, 1, 2, 1], maxc = 1, heap = 100, memory = junk\<rparr> =
   Inr state_abaaaba_3"
  by (simp add: eval_rules main_steps_def state_abaaaba_3_def cong: ebind_weak_cong)

text \<open>
  The text \<open>aababab\<close> (bytes 1, 1, 2, 1, 2, 1, 2) with cost bound 1. \<open>state_aababab_2\<close> and
  \<open>state_aababab_3\<close> are the states of the parser after two and after three iterations.
  The third iteration finds the phrase of length 1 with source 1 at position 4;
  \<open>tree_aababab_u\<close> is the tree after the cost update of this phrase (lines 832 to 854),
  \<open>tree_aababab_a\<close> the tree after the first call of \<^verbatim>\<open>changeAnnotationFromLeaf\<close> of its
  propagation (for position 5) and \<open>tree_aababab_b\<close> the tree after the second call (for
  position 4), which rewrites the leaf 7 of position 4, its father 6 (the string \<open>abab\<close>)
  and the father 10 of that node (the string \<open>ab\<close>).
\<close>

definition state_aababab_2 :: parser where
  "state_aababab_2 =
     \<lparr>ptree = \<lparr>nodes =
          [mk_node 0 0 0 0 0 0 0 0 0 0 0 0 0,
           mk_node 3 0 0 0 0 0 0 0 0 0 3 0 3,
           mk_node 0 10 0 0 3 1 2 8 8 0 1 0 1,
           mk_node 2 12 0 1 1 1 1 1 1 0 1 0 1,
           mk_node 0 7 0 0 6 2 6 3 2 1 2 1 2,
           mk_node 0 9 0 0 8 3 6 3 1 0 3 0 3,
           mk_node 4 11 0 8 10 2 4 5 4 4294967295 0 1 2,
           mk_node 0 0 4 0 6 4 8 8 5 4294967295 4 4294967295 4,
           mk_node 5 13 0 10 12 3 4 5 3 4294967295 0 0 3,
           mk_node 0 0 5 0 8 5 8 8 4 4294967295 5 4294967295 5,
           mk_node 6 0 2 12 3 2 3 3 2 1 2 1 2,
           mk_node 0 0 6 0 10 6 8 8 3 4294967295 6 4294967295 6,
           mk_node 8 14 3 1 1 3 3 3 1 0 3 0 3,
           mk_node 0 0 8 0 12 7 8 8 2 4294967295 7 4294967295 7,
           mk_node 0 0 12 0 1 8 8 8 1 4294967295 8 4294967295 8],
        root = 1, e_end = 8, length_t = 8,
        tree_string = [1, 1, 2, 1, 2, 1, 2, 0],
        inversePointers = [0, 2, 4, 5, 7, 9, 11, 13, 14],
        costArray = [8, 0, 1, 0, 8, 8, 8, 8, 8],
        maxStrDepth = [None, Some 1, Some 5, Some 5, Some 7, Some 7, Some 7, Some 7, Some 7],
        D_arr = [- 1, 1, 0, - 1, - 1, - 1, - 1, - 1, - 1], COST = 1,
        segm = [8, 0, 1, 0, 8, 8, 8, 8, 8],
        suffixless = 0, heap_left = 84, heap_cells = junk\<rparr>,
      ptextPos = 4, z = 2, positionOfPreviousC = 2,
      printed = [(- 1, 0, 1), (0, 1, 2)],
      queries = [(1, 8), (2, 8)]\<rparr>"

definition state_aababab_3 :: parser where
  "state_aababab_3 =
     \<lparr>ptree = \<lparr>nodes =
          [mk_node 0 0 0 0 0 0 0 0 0 0 0 0 0,
           mk_node 3 0 0 0 0 0 0 0 0 0 3 0 3,
           mk_node 0 10 0 0 3 1 2 8 8 0 1 0 1,
           mk_node 2 12 0 1 1 1 1 1 1 0 1 0 1,
           mk_node 0 7 0 0 6 2 6 3 2 1 2 1 2,
           mk_node 0 9 0 0 8 3 6 3 1 1 3 1 3,
           mk_node 4 11 0 8 10 2 4 5 4 1 2 1 2,
           mk_node 0 0 4 0 6 4 8 8 5 1 4 1 4,
           mk_node 5 13 0 10 12 3 4 5 3 1 3 0 5,
           mk_node 0 0 5 0 8 5 8 8 4 0 5 0 5,
           mk_node 6 0 2 12 3 2 3 3 2 1 2 4294967295 0,
           mk_node 0 0 6 0 10 6 8 8 3 4294967295 6 4294967295 6,
           mk_node 8 14 3 1 1 3 3 3 1 0 3 0 3,
           mk_node 0 0 8 0 12 7 8 8 2 4294967295 7 4294967295 7,
           mk_node 0 0 12 0 1 8 8 8 1 4294967295 8 4294967295 8],
        root = 1, e_end = 8, length_t = 8,
        tree_string = [1, 1, 2, 1, 2, 1, 2, 0],
        inversePointers = [0, 2, 4, 5, 7, 9, 11, 13, 14],
        costArray = [8, 0, 1, 0, 1, 0, 8, 8, 8],
        maxStrDepth = [None, Some 1, Some 5, Some 5, Some 7, Some 7, Some 7, Some 7, Some 7],
        D_arr = [- 1, 1, 0, 1, 0, - 1, - 1, - 1, - 1], COST = 1,
        segm = [8, 0, 1, 0, 1, 0, 8, 8, 8],
        suffixless = 0, heap_left = 84, heap_cells = junk\<rparr>,
      ptextPos = 6, z = 3, positionOfPreviousC = 4,
      printed = [(- 1, 0, 1), (0, 1, 2), (0, 1, 2)],
      queries = [(1, 8), (2, 8), (4, 8)]\<rparr>"

definition tree_aababab_u :: SUFFIX_TREE where
  "tree_aababab_u =
     (ptree state_aababab_2)
       \<lparr>costArray := [8, 0, 1, 0, 1, 0, 8, 8, 8],
        D_arr := [- 1, 1, 0, 1, 0, - 1, - 1, - 1, - 1],
        segm := [8, 0, 1, 0, 1, 0, 8, 8, 8]\<rparr>"

definition tree_aababab_a :: SUFFIX_TREE where
  "tree_aababab_a = set_node tree_aababab_u 9 (mk_node 0 0 5 0 8 5 8 8 4 0 5 0 5)"

definition tree_aababab_b :: SUFFIX_TREE where
  "tree_aababab_b =
     set_node
       (set_node
          (set_node tree_aababab_a 7 (mk_node 0 0 4 0 6 4 8 8 5 1 4 1 4))
          6 (mk_node 4 11 0 8 10 2 4 5 4 4294967295 0 4294967295 0))
       10 (mk_node 6 0 2 12 3 2 3 3 2 1 2 4294967295 0)"

lemma reach_aababab_2:
  "main_steps fuel12 (Suc (Suc 0))
     \<lparr>argc = 3, input_file = Some [1, 1, 2, 1, 2, 1, 2], maxc = 1, heap = 100, memory = junk\<rparr> =
   Inr state_aababab_2"
  by (simp add: eval_rules main_steps_def state_aababab_2_def cong: ebind_weak_cong)

lemma reach_aababab_3:
  "main_steps fuel12 (Suc (Suc (Suc 0)))
     \<lparr>argc = 3, input_file = Some [1, 1, 2, 1, 2, 1, 2], maxc = 1, heap = 100, memory = junk\<rparr> =
   Inr state_aababab_3"
  by (simp add: eval_rules main_steps_def state_aababab_3_def cong: ebind_weak_cong)

lemma query_aababab_3:
  "ST_FindSubstring fuel12 (ptree state_aababab_2)
     (drop (ptextPos state_aababab_2 - 1) (tree_string (ptree state_aababab_2)))
     (length_t (ptree state_aababab_2)) = Inr \<lparr>mlength = 1, mpos = 1\<rparr>"
  by (simp add: eval_rules state_aababab_2_def cong: ebind_weak_cong)

lemma update_aababab_3:
  "parse_update state_aababab_2 \<lparr>mlength = 1, mpos = 1\<rparr> = Inr (tree_aababab_u, 4)"
  by (simp add: eval_rules tree_aababab_u_def state_aababab_2_def cong: ebind_weak_cong)

lemma call_aababab_a:
  "changeAnnotationFromLeaf fuel12 5 5 (- 1) 0 tree_aababab_u = Inr tree_aababab_a"
  by (simp add: eval_rules tree_aababab_a_def tree_aababab_u_def state_aababab_2_def
      cong: ebind_weak_cong)

lemma call_aababab_b:
  "changeAnnotationFromLeaf fuel12 4 5 0 1 tree_aababab_a = Inr tree_aababab_b"
  by (simp add: eval_rules tree_aababab_b_def tree_aababab_a_def tree_aababab_u_def
      state_aababab_2_def cong: ebind_weak_cong)

lemma calls_aababab:
  "propagateAnnotation fuel12 4 1 tree_aababab_u = propagate_loop fuel12 4 1 tree_aababab_b 1 3"
  by (simp add: eval_rules tree_aababab_b_def tree_aababab_a_def tree_aababab_u_def
      state_aababab_2_def cong: ebind_weak_cong)

section \<open>Properties\<close>

subsection \<open>The early returns of the query\<close>

text \<open>
  The nodes that the descent of \<^verbatim>\<open>ST_FindSubstring(tree, W, P)\<close> visits.
  \<open>visited fuel t W P d node j cm\<close>: the loop \<^verbatim>\<open>while(node!=0)\<close> is entered for the
  \<open>d+1\<close>-th time with the variables \<^verbatim>\<open>node\<close>, \<^verbatim>\<open>j\<close> and \<^verbatim>\<open>currentMatch\<close> holding \<open>node\<close>,
  \<open>j\<close> and \<open>cm\<close>. The first node is the son of the root for \<^verbatim>\<open>W[0]\<close>, with \<open>j = 0\<close> and the
  empty match; the next node is reached when the annotation of the current one is neither
  unset nor \<open>C\<close>, its \<^verbatim>\<open>optimisticTextPos\<close> is not 0, and the edge is matched to its end
  before \<open>W\<close> is.
\<close>

inductive visited ::
  "nat \<Rightarrow> SUFFIX_TREE \<Rightarrow> byte list \<Rightarrow> nat \<Rightarrow> nat \<Rightarrow> nat \<Rightarrow> nat \<Rightarrow> MATCH \<Rightarrow> bool"
  for fuel :: nat and t :: SUFFIX_TREE and W :: "byte list" and P :: nat where
  enter:
    "rd W 0 = Inr c \<Longrightarrow> find_son fuel t (root t) c = Inr node \<Longrightarrow>
     visited fuel t W P 0 node 0 \<lparr>mlength = 0, mpos = 0\<rparr>"
| descend:
    "visited fuel t W P d node j cm \<Longrightarrow> d < fuel \<Longrightarrow> node_at t node = Inr n \<Longrightarrow>
     optimisticMinMax (annot n) \<noteq> UNSET \<Longrightarrow> optimisticMinMax (annot n) \<noteq> COST t \<Longrightarrow>
     scan_edge t W P (get_node_label_end t n) j (edge_label_start n) = Inr (j', k) \<Longrightarrow>
     optimisticTextPos (annot n) \<noteq> 0 \<Longrightarrow> j' \<noteq> P \<Longrightarrow> k > get_node_label_end t n \<Longrightarrow>
     rd W j' = Inr c \<Longrightarrow> find_son (fuel - d) t node c = Inr node' \<Longrightarrow>
     visited fuel t W P (Suc d) node' j' \<lparr>mlength = j', mpos = optimisticTextPos (annot n)\<rparr>"

lemma visited_loop:
  "visited fuel t W P d node j cm \<Longrightarrow>
     ST_FindSubstring fuel t W P = ST_FindSubstring_loop (fuel - d) t W P node j cm"
proof (induction rule: visited.induct)
  case (enter c node)
  then show ?case by (simp add: ST_FindSubstring_def)
next
  case (descend d node j cm n j' k c node')
  from descend.hyps(2) obtain f where f: "fuel - d = Suc f" and f': "fuel - Suc d = f"
    by (cases "fuel - d") auto
  from descend.hyps(3) have "node \<noteq> 0"
    by (auto simp: node_at_def split: if_splits)
  with descend show ?case
    by (simp add: f f' Let_def)
qed

text \<open>
  C7. At every node that the descent of \<^verbatim>\<open>ST_FindSubstring\<close> visits: if the node's
  \<^verbatim>\<open>optimisticMinMax\<close> is unset, the function returns the match found so far; if it is set
  and equals \<open>C\<close>, the function returns \<open>(D[optimisticTextPos], optimisticTextPos)\<close> when
  \<open>D[optimisticTextPos] > currentMatch.length\<close> and the match found so far otherwise. The
  test for unset comes first in the source, so it decides when \<open>C\<close> is \<open>2^32 - 1\<close>.
\<close>

theorem ST_FindSubstring_pruning:
  assumes "visited fuel t W P d node j cm" and "d < fuel" and "node_at t node = Inr n"
  shows "(optimisticMinMax (annot n) = UNSET \<longrightarrow> ST_FindSubstring fuel t W P = Inr cm) \<and>
         (optimisticMinMax (annot n) \<noteq> UNSET \<and> optimisticMinMax (annot n) = COST t \<and>
          rd (D_arr t) (optimisticTextPos (annot n)) = Inr dist \<longrightarrow>
            ST_FindSubstring fuel t W P =
              Inr (if dist > int (mlength cm)
                   then \<lparr>mlength = nat dist, mpos = optimisticTextPos (annot n)\<rparr>
                   else cm))"
proof -
  from assms(2) obtain f where f: "fuel - d = Suc f"
    by (cases "fuel - d") auto
  from assms(3) have "node \<noteq> 0"
    by (auto simp: node_at_def split: if_splits)
  with assms(3) show ?thesis
    unfolding visited_loop [OF assms(1)] f by simp
qed

theorem ST_FindSubstring_pruning_witness:
  "main_steps fuel12 (Suc (Suc 0))
     \<lparr>argc = 3, input_file = Some [1, 2, 2, 2], maxc = 1, heap = 100, memory = junk\<rparr> =
     Inr state_abbb_2 \<and>
   visited fuel12 (ptree state_abbb_2)
     (drop (ptextPos state_abbb_2 - 1) (tree_string (ptree state_abbb_2)))
     (length_t (ptree state_abbb_2)) 2 5 2 \<lparr>mlength = 2, mpos = 2\<rparr> \<and>
   2 < fuel12 \<and>
   node_at (ptree state_abbb_2) 5 = Inr (mk_node 0 0 3 0 4 3 5 5 3 4294967295 3 4294967295 3) \<and>
   optimisticMinMax (annot (mk_node 0 0 3 0 4 3 5 5 3 4294967295 3 4294967295 3)) = UNSET \<and>
   ST_FindSubstring fuel12 (ptree state_abbb_2)
     (drop (ptextPos state_abbb_2 - 1) (tree_string (ptree state_abbb_2)))
     (length_t (ptree state_abbb_2)) = Inr \<lparr>mlength = 2, mpos = 2\<rparr> \<and>
   main_steps fuel12 (Suc (Suc (Suc 0)))
     \<lparr>argc = 3, input_file = Some [1, 2, 1, 1, 1, 2, 1], maxc = 1, heap = 100, memory = junk\<rparr> =
     Inr state_abaaaba_3 \<and>
   visited fuel12 (ptree state_abaaaba_3)
     (drop (ptextPos state_abaaaba_3 - 1) (tree_string (ptree state_abaaaba_3)))
     (length_t (ptree state_abaaaba_3)) 1 8 1 \<lparr>mlength = 1, mpos = 1\<rparr> \<and>
   1 < fuel12 \<and>
   node_at (ptree state_abaaaba_3) 8 = Inr (mk_node 2 6 0 10 4 1 2 3 3 1 1 1 1) \<and>
   optimisticMinMax (annot (mk_node 2 6 0 10 4 1 2 3 3 1 1 1 1)) \<noteq> UNSET \<and>
   optimisticMinMax (annot (mk_node 2 6 0 10 4 1 2 3 3 1 1 1 1)) = COST (ptree state_abaaaba_3) \<and>
   rd (D_arr (ptree state_abaaaba_3))
     (optimisticTextPos (annot (mk_node 2 6 0 10 4 1 2 3 3 1 1 1 1))) = Inr 2 \<and>
   ST_FindSubstring fuel12 (ptree state_abaaaba_3)
     (drop (ptextPos state_abaaaba_3 - 1) (tree_string (ptree state_abaaaba_3)))
     (length_t (ptree state_abaaaba_3)) = Inr \<lparr>mlength = 2, mpos = 1\<rparr>"
proof -
  let ?t = "ptree state_abbb_2"
  let ?W = "drop (ptextPos state_abbb_2 - 1) (tree_string ?t)"
  let ?P = "length_t ?t"
  let ?n5 = "mk_node 0 0 3 0 4 3 5 5 3 4294967295 3 4294967295 3"
  have a0: "visited fuel12 ?t ?W ?P 0 6 0 \<lparr>mlength = 0, mpos = 0\<rparr>"
    by (rule visited.enter [where c = 2])
      (simp_all add: eval_rules state_abbb_2_def cong: ebind_weak_cong)
  have "visited fuel12 ?t ?W ?P (Suc 0) 4 1
          \<lparr>mlength = 1, mpos = optimisticTextPos (annot (mk_node 4 8 2 1 1 2 2 2 1 0 2 0 2))\<rparr>"
    by (rule visited.descend [OF a0, where k = 3 and c = 2])
      (simp_all add: eval_rules state_abbb_2_def cong: ebind_weak_cong)
  then have a1: "visited fuel12 ?t ?W ?P (Suc 0) 4 1 \<lparr>mlength = 1, mpos = 2\<rparr>"
    by (simp add: mk_node_def)
  have "visited fuel12 ?t ?W ?P (Suc (Suc 0)) 5 2
          \<lparr>mlength = 2,
             mpos = optimisticTextPos (annot (mk_node 3 7 0 6 6 2 3 3 2 4294967295 0 0 2))\<rparr>"
    by (rule visited.descend [OF a1, where k = 4 and c = 0])
      (simp_all add: eval_rules state_abbb_2_def cong: ebind_weak_cong)
  then have a2: "visited fuel12 ?t ?W ?P (Suc (Suc 0)) 5 2 \<lparr>mlength = 2, mpos = 2\<rparr>"
    by (simp add: mk_node_def)
  have a3: "visited fuel12 ?t ?W ?P 2 5 2 \<lparr>mlength = 2, mpos = 2\<rparr>"
    using a2 by (simp add: numeral_2_eq_2)
  have af: "2 < fuel12" "1 < fuel12"
    by (simp_all add: fuel12_def)
  have an: "node_at ?t 5 = Inr ?n5"
    by (simp add: eval_rules state_abbb_2_def)
  have au: "optimisticMinMax (annot ?n5) = UNSET"
    by (simp add: eval_rules)
  let ?u = "ptree state_abaaaba_3"
  let ?V = "drop (ptextPos state_abaaaba_3 - 1) (tree_string ?u)"
  let ?Q = "length_t ?u"
  let ?n8 = "mk_node 2 6 0 10 4 1 2 3 3 1 1 1 1"
  have b0: "visited fuel12 ?u ?V ?Q 0 4 0 \<lparr>mlength = 0, mpos = 0\<rparr>"
    by (rule visited.enter [where c = 1])
      (simp_all add: eval_rules state_abaaaba_3_def cong: ebind_weak_cong)
  have "visited fuel12 ?u ?V ?Q (Suc 0) 8 1
          \<lparr>mlength = 1, mpos = optimisticTextPos (annot (mk_node 8 10 0 1 1 1 1 1 1 0 1 0 1))\<rparr>"
    by (rule visited.descend [OF b0, where k = 2 and c = 2])
      (simp_all add: eval_rules state_abaaaba_3_def cong: ebind_weak_cong)
  then have b2: "visited fuel12 ?u ?V ?Q 1 8 1 \<lparr>mlength = 1, mpos = 1\<rparr>"
    by (simp add: mk_node_def)
  have bn: "node_at ?u 8 = Inr ?n8"
    by (simp add: eval_rules state_abaaaba_3_def)
  have bu: "optimisticMinMax (annot ?n8) \<noteq> UNSET" "optimisticMinMax (annot ?n8) = COST ?u"
    "rd (D_arr ?u) (optimisticTextPos (annot ?n8)) = Inr 2"
    by (simp_all add: eval_rules state_abaaaba_3_def)
  from ST_FindSubstring_pruning [OF a3 af(1) an] au
  have ra: "ST_FindSubstring fuel12 ?t ?W ?P = Inr \<lparr>mlength = 2, mpos = 2\<rparr>"
    by blast
  from ST_FindSubstring_pruning [OF b2 af(2) bn, of 2] bu
  have rb: "ST_FindSubstring fuel12 ?u ?V ?Q = Inr \<lparr>mlength = 2, mpos = 1\<rparr>"
    by (simp add: mk_node_def)
  from reach_abbb_2 a3 af an au ra reach_abaaaba_3 b2 bn bu rb show ?thesis
    by blast
qed

subsection \<open>The cost bound\<close>

text \<open>
  C2. When the program terminates normally, every position \<open>i\<close> of the cost array, from 1
  to the length of the text plus one (the position of the terminator), has a cost of at
  most the cost bound. (Index 0 of the array is not a position of the text; the parser never
  writes it.)
\<close>

theorem cost_bound:
  assumes "main fuel env = Inr st" and "input_file env = Some bytes"
    and "1 \<le> i" and "i \<le> length bytes + 1"
  shows "i < length (costArray (ptree st)) \<and> costArray (ptree st) ! i \<le> maxc env"
  using main_invariant [OF assms(1,2)] assms(3,4) by simp

theorem cost_bound_witness:
  "main fuel12 \<lparr>argc = 3, input_file = Some [1, 2, 2, 2], maxc = 1, heap = 100, memory = junk\<rparr> =
     Inr state_abbb_3 \<and>
   (3::nat) < length (costArray (ptree state_abbb_3)) \<and>
   costArray (ptree state_abbb_3) ! 3 \<le> 1"
  using cost_bound [OF run_abbb, of "[1, 2, 2, 2]" 3] run_abbb by simp

subsection \<open>The pattern length of the query\<close>

text \<open>
  C4, as the specification states it: the pattern length of the query issued at position
  \<open>textPos\<close> is \<open>n - textPos + 1\<close>, for a text of length \<open>n\<close>.
\<close>

definition spec_query_length :: "nat \<Rightarrow> nat \<times> nat \<Rightarrow> bool" where
  "spec_query_length n q \<longleftrightarrow> snd q = n - fst q + 1"

theorem query_length_counterexample:
  "map_sum id queries
     (main fuel12 \<lparr>argc = 3, input_file = Some [1, 2, 2, 2], maxc = 1, heap = 100, memory = junk\<rparr>) =
     Inr [(1, 5), (2, 5), (3, 5)] \<and>
   \<not> list_all (spec_query_length 4) [(1, 5), (2, 5), (3, 5)] \<and>
   \<not> list_all (spec_query_length 5) [(1, 5), (2, 5), (3, 5)]"
  by (subst run_abbb) (simp add: state_abbb_3_def spec_query_length_def)

text \<open>
  C4, amended. In every iteration the parser calls \<^verbatim>\<open>ST_FindSubstring\<close> on the suffix of the
  text that starts at the current position, with the pattern length \<^verbatim>\<open>tree->length\<close>, the
  length of the text plus one, whatever the position is.
\<close>

theorem query_length:
  assumes "main fuel env = Inr st" and "input_file env = Some bytes"
    and "q \<in> set (queries st)"
  shows "snd q = length bytes + 1"
  using main_invariant [OF assms(1,2)] assms(3) by simp

theorem query_length_witness:
  "main fuel12 \<lparr>argc = 3, input_file = Some [1, 2, 2, 2], maxc = 1, heap = 100, memory = junk\<rparr> =
     Inr state_abbb_3 \<and>
   (2, 5) \<in> set (queries state_abbb_3) \<and> snd (2::nat, 5::nat) = length [1::nat, 2, 2, 2] + 1"
proof -
  have q: "(2, 5) \<in> set (queries state_abbb_3)"
    by (simp add: state_abbb_3_def)
  from query_length [OF run_abbb _ q, of "[1, 2, 2, 2]"] run_abbb q show ?thesis
    by simp
qed

subsection \<open>The cost recurrence\<close>

text \<open>
  C6. After a parser iteration that emits the phrase \<open>(src - 1, L, lit)\<close> found at
  \<open>textPos\<close>: for every \<open>i < L\<close> the cost at \<open>textPos + i\<close> is one more than the cost at the
  source position \<open>src + k\<close>, where \<open>k\<close> is \<open>source_offset src textPos i\<close>; the cost at the
  literal position \<open>textPos + L\<close> is 0; and the segment tree holds the new costs at all these
  positions. The cost at the source position is the one before the iteration; when the
  source lies before \<open>textPos\<close> it is also the one after the iteration, because the wrap of
  \<open>k\<close> keeps the source positions below \<open>textPos\<close>.
\<close>

theorem cost_recurrence:
  assumes "parse_iteration fuel st = Inr st'"
    and "printed st' = printed st @ [(int src - 1, L, lit)]"
    and "length (segm (ptree st)) = length (costArray (ptree st))"
  shows "(\<forall>i. i < L \<longrightarrow>
            costArray (ptree st') ! (ptextPos st + i) =
              costArray (ptree st) ! (src + source_offset src (ptextPos st) i) + 1) \<and>
         (src < ptextPos st \<longrightarrow> (\<forall>i. i < L \<longrightarrow>
            costArray (ptree st') ! (ptextPos st + i) =
              costArray (ptree st') ! (src + source_offset src (ptextPos st) i) + 1)) \<and>
         costArray (ptree st') ! (ptextPos st + L) = 0 \<and>
         (\<forall>i. i \<le> L \<longrightarrow>
            segm (ptree st') ! (ptextPos st + i) = costArray (ptree st') ! (ptextPos st + i))"
proof -
  from assms(1) obtain cp lit' where
    "ST_FindSubstring fuel (ptree st) (drop (ptextPos st - 1) (tree_string (ptree st)))
       (length_t (ptree st)) = Inr cp"
    and pr: "printed st' = printed st @ [(int (mpos cp) - 1, mlength cp, lit')]"
    and "queries st' = queries st @ [(ptextPos st, length_t (ptree st))]"
    "ptextPos st' = ptextPos st + mlength cp + 1"
    "COST (ptree st') = COST (ptree st)"
    "length_t (ptree st') = length_t (ptree st)"
    "length (costArray (ptree st')) = length (costArray (ptree st))"
    "length (segm (ptree st')) = length (segm (ptree st))"
    and below: "\<forall>p. p < ptextPos st \<longrightarrow> costArray (ptree st') ! p = costArray (ptree st) ! p"
    and "\<forall>j. j < mlength cp \<longrightarrow> costArray (ptree st') ! (ptextPos st + j) \<le> COST (ptree st)"
    and bound: "ptextPos st + mlength cp < length (costArray (ptree st))"
    and lit0: "costArray (ptree st') ! (ptextPos st + mlength cp) = 0"
    and sg: "\<forall>j. j \<le> mlength cp \<longrightarrow> ptextPos st + j < length (segm (ptree st)) \<longrightarrow>
       segm (ptree st') ! (ptextPos st + j) = costArray (ptree st') ! (ptextPos st + j)"
    and rec: "\<forall>j. j < mlength cp \<longrightarrow>
       costArray (ptree st') ! (ptextPos st + j) =
       costArray (ptree st) ! (mpos cp + source_offset (mpos cp) (ptextPos st) j) + 1"
    by (rule parse_iteration_costs)
  from pr assms(2) have eq: "mpos cp = src" "mlength cp = L"
    by simp_all
  have a: "\<forall>i. i < L \<longrightarrow>
            costArray (ptree st') ! (ptextPos st + i) =
              costArray (ptree st) ! (src + source_offset src (ptextPos st) i) + 1"
    using rec eq by simp
  have b: "src < ptextPos st \<longrightarrow> (\<forall>i. i < L \<longrightarrow>
            costArray (ptree st') ! (ptextPos st + i) =
              costArray (ptree st') ! (src + source_offset src (ptextPos st) i) + 1)"
    using a below source_offset_below [of src "ptextPos st"] by simp
  have c: "costArray (ptree st') ! (ptextPos st + L) = 0"
    using lit0 eq by simp
  have d: "\<forall>i. i \<le> L \<longrightarrow>
            segm (ptree st') ! (ptextPos st + i) = costArray (ptree st') ! (ptextPos st + i)"
    using sg bound eq assms(3) by simp
  from a b c d show ?thesis by blast
qed

theorem cost_recurrence_witness:
  "parse_iteration fuel12 state_abbb_2 = Inr state_abbb_3 \<and>
   printed state_abbb_3 = printed state_abbb_2 @ [(int 2 - 1, 2, 0)] \<and>
   length (segm (ptree state_abbb_2)) = length (costArray (ptree state_abbb_2)) \<and>
   ptextPos state_abbb_2 = 3 \<and> source_offset 2 3 1 = 0 \<and>
   costArray (ptree state_abbb_3) ! 4 = costArray (ptree state_abbb_3) ! 2 + 1 \<and>
   costArray (ptree state_abbb_3) ! 5 = 0 \<and>
   segm (ptree state_abbb_3) ! 4 = costArray (ptree state_abbb_3) ! 4"
proof -
  have pr: "printed state_abbb_3 = printed state_abbb_2 @ [(int 2 - 1, 2, 0)]"
    by (simp add: state_abbb_2_def state_abbb_3_def)
  have sg: "length (segm (ptree state_abbb_2)) = length (costArray (ptree state_abbb_2))"
    by (simp add: state_abbb_2_def)
  have tp: "ptextPos state_abbb_2 = 3"
    by (simp add: state_abbb_2_def)
  have off: "source_offset 2 3 1 = 0"
    by simp
  note th = cost_recurrence [OF step_abbb_3 pr sg, unfolded tp]
  from th have "(2::nat) < 3 \<longrightarrow> (\<forall>i. i < 2 \<longrightarrow>
      costArray (ptree state_abbb_3) ! (3 + i) =
      costArray (ptree state_abbb_3) ! (2 + source_offset 2 3 i) + 1)"
    by blast
  from this [rule_format, of 1] off
  have a: "costArray (ptree state_abbb_3) ! 4 = costArray (ptree state_abbb_3) ! 2 + 1"
    by simp
  from th have "costArray (ptree state_abbb_3) ! (3 + 2) = 0"
    by blast
  then have b: "costArray (ptree state_abbb_3) ! 5 = 0"
    by simp
  from th have "\<forall>i. i \<le> 2 \<longrightarrow>
      segm (ptree state_abbb_3) ! (3 + i) = costArray (ptree state_abbb_3) ! (3 + i)"
    by blast
  from this [rule_format, of 1]
  have c: "segm (ptree state_abbb_3) ! 4 = costArray (ptree state_abbb_3) ! 4"
    by simp
  from step_abbb_3 pr sg tp off a b c show ?thesis by blast
qed

subsection \<open>The exit status\<close>

text \<open>
  C3. The exit status of the program in its failure cases. \<^verbatim>\<open>main\<close> returns 0 when the
  input file cannot be opened, and the program exits with status 0 when a checked allocation
  fails (the text buffer in \<^verbatim>\<open>main\<close>, the tree in \<^verbatim>\<open>ST_CreateTree\<close>, a node in
  \<^verbatim>\<open>create_node\<close>); it exits with status 1 when an argument is missing and when the input
  holds a zero byte.
\<close>

theorem exit_status_of_failures:
  "exit_status (main fuel \<lparr>argc = 3, input_file = None, maxc = c, heap = h, memory = m\<rparr>) = Some 0 \<and>
   exit_status (main fuel \<lparr>argc = 3, input_file = Some bytes, maxc = c, heap = 0, memory = m\<rparr>) = Some 0 \<and>
   exit_status (main fuel \<lparr>argc = 3, input_file = Some [1], maxc = c, heap = 1, memory = m\<rparr>) = Some 0 \<and>
   exit_status (main fuel \<lparr>argc = 3, input_file = Some [1], maxc = c, heap = 2, memory = m\<rparr>) = Some 0 \<and>
   exit_status (main fuel \<lparr>argc = 2, input_file = Some bytes, maxc = c, heap = h, memory = m\<rparr>) = Some 1 \<and>
   exit_status (main fuel \<lparr>argc = 3, input_file = Some [1, 0, 1], maxc = c, heap = 9, memory = m\<rparr>) = Some 1"
  by (simp add: main_def exit_status_def ST_CreateTree_def create_node_def)

subsection \<open>The bare literal\<close>

text \<open>
  \<^verbatim>\<open>propagateAnnotation\<close> has no \<^verbatim>\<open>exit\<close>; it returns when its pointers lead to nodes and its
  indices into arrays. \<open>ptr_chain k nxt q\<close>: following the pointer \<open>nxt\<close> from \<open>q\<close> reaches the null
  pointer in at most \<open>k\<close> steps. \<open>wellformed m b t\<close>: the pointers \<^verbatim>\<open>sons\<close>, \<^verbatim>\<open>right_sibling\<close> and
  \<^verbatim>\<open>father\<close> of every node of the arena point into the arena, the lists of sons have at most
  \<open>b\<close> nodes and the paths to the root at most \<open>m\<close>, the father of a node has a son, the
  positions \<^verbatim>\<open>textPos\<close> and \<^verbatim>\<open>optimisticTextPos\<close> of the annotations are indices of \<^verbatim>\<open>D\<close>, the
  arrays have a cell for every position \<open>0..length\<close>, the text has \<open>length\<close> bytes, and every
  position \<open>1..length\<close> has a leaf in \<^verbatim>\<open>inversePointers\<close> and a written cell in
  \<^verbatim>\<open>maxStrDepth\<close>.
\<close>

fun ptr_chain :: "nat \<Rightarrow> (nat \<Rightarrow> nat) \<Rightarrow> nat \<Rightarrow> bool" where
  "ptr_chain 0 nxt q \<longleftrightarrow> q = 0"
| "ptr_chain (Suc k) nxt q \<longleftrightarrow> q = 0 \<or> ptr_chain k nxt (nxt q)"

definition node_ok :: "nat \<Rightarrow> nat \<Rightarrow> SUFFIX_TREE \<Rightarrow> NODE \<Rightarrow> bool" where
  "node_ok m b t n \<longleftrightarrow>
     sons n < length (nodes t) \<and> right_sibling n < length (nodes t) \<and>
     father n < length (nodes t) \<and>
     textPos (annot n) < length (D_arr t) \<and>
     optimisticTextPos (annot n) < length (D_arr t) \<and>
     ptr_chain b (\<lambda>q. right_sibling (nodes t ! q)) (sons n) \<and>
     ptr_chain m (\<lambda>q. father (nodes t ! q)) (father n) \<and>
     (father n = 0 \<or> sons (nodes t ! father n) \<noteq> 0)"

definition wellformed :: "nat \<Rightarrow> nat \<Rightarrow> SUFFIX_TREE \<Rightarrow> bool" where
  "wellformed m b t \<longleftrightarrow>
     list_all (node_ok m b t) (nodes t) \<and>
     length_t t < length (inversePointers t) \<and> length_t t < length (costArray t) \<and>
     length_t t < length (maxStrDepth t) \<and> length_t t < length (D_arr t) \<and>
     length_t t \<le> length (tree_string t) \<and>
     list_all (\<lambda>i. 0 < inversePointers t ! i \<and> inversePointers t ! i < length (nodes t) \<and>
                   maxStrDepth t ! i \<noteq> None) [1..<Suc (length_t t)]"

lemma ptr_chain_step:
  "ptr_chain k nxt q \<Longrightarrow> q \<noteq> 0 \<Longrightarrow> \<exists>k'. k = Suc k' \<and> ptr_chain k' nxt (nxt q)"
  by (cases k) auto

lemma node_ok_nth: "wellformed m b t \<Longrightarrow> q < length (nodes t) \<Longrightarrow> node_ok m b t (nodes t ! q)"
  by (simp add: wellformed_def list_all_length)

lemma node_at_nth: "0 < q \<Longrightarrow> q < length (nodes t) \<Longrightarrow> node_at t q = Inr (nodes t ! q)"
  by (simp add: node_at_def rd_def)

lemma wellformed_position:
  assumes "wellformed m b t" and "1 \<le> i" and "i \<le> length_t t"
  shows "0 < inversePointers t ! i" and "inversePointers t ! i < length (nodes t)"
    and "\<exists>v. maxStrDepth t ! i = Some v"
proof -
  from assms(2,3) have "i \<in> set [1..<Suc (length_t t)]"
    by auto
  with assms(1) have "0 < inversePointers t ! i \<and> inversePointers t ! i < length (nodes t) \<and>
      maxStrDepth t ! i \<noteq> None"
    unfolding wellformed_def list_all_iff by blast
  then show "0 < inversePointers t ! i" and "inversePointers t ! i < length (nodes t)"
    and "\<exists>v. maxStrDepth t ! i = Some v"
    by auto
qed

text \<open>A node rewritten with the same pointers and with positions inside \<^verbatim>\<open>D\<close>.\<close>

lemma wellformed_set_node:
  assumes wf: "wellformed m b t" and q: "q < length (nodes t)"
    and s: "sons n' = sons (nodes t ! q)" and r: "right_sibling n' = right_sibling (nodes t ! q)"
    and f: "father n' = father (nodes t ! q)"
    and d: "textPos (annot n') < length (D_arr t)"
      "optimisticTextPos (annot n') < length (D_arr t)"
  shows "wellformed m b (set_node t q n')"
    and "(\<lambda>x. father (nodes (set_node t q n') ! x)) = (\<lambda>x. father (nodes t ! x))"
    and "sons (nodes (set_node t q n') ! x) = sons (nodes t ! x)"
proof -
  let ?t = "set_node t q n'"
  have fa: "(\<lambda>x. father (nodes ?t ! x)) = (\<lambda>x. father (nodes t ! x))"
    using q f by (auto simp: set_node_def nth_list_update)
  have rs: "(\<lambda>x. right_sibling (nodes ?t ! x)) = (\<lambda>x. right_sibling (nodes t ! x))"
    using q r by (auto simp: set_node_def nth_list_update)
  have so: "sons (nodes ?t ! x) = sons (nodes t ! x)" for x
    using q s by (auto simp: set_node_def nth_list_update)
  have len: "length (nodes ?t) = length (nodes t)" "D_arr ?t = D_arr t"
    by (simp_all add: set_node_def)
  have ok: "node_ok m b ?t = node_ok m b t"
    by (rule ext) (simp add: node_ok_def fa rs so len)
  have old: "node_ok m b t (nodes t ! q)"
    using node_ok_nth [OF wf q] .
  then have new: "node_ok m b t n'"
    using s r f d by (simp add: node_ok_def)
  have "\<forall>x < length (nodes t). node_ok m b t (nodes t ! x)"
    using wf by (simp add: wellformed_def list_all_length)
  then have "list_all (node_ok m b t) ((nodes t)[q := n'])"
    using new q by (auto simp: list_all_length nth_list_update)
  then show "wellformed m b ?t"
    using wf unfolding wellformed_def ok
    by (simp add: set_node_def)
  show "(\<lambda>x. father (nodes ?t ! x)) = (\<lambda>x. father (nodes t ! x))"
    by (rule fa)
  show "sons (nodes ?t ! x) = sons (nodes t ! x)"
    by (rule so)
qed

text \<open>The result of \<^verbatim>\<open>cappedMax\<close> is a position of the range, or \<open>l\<close> when the range is empty.\<close>

lemma scan_max_below: "best < p \<Longrightarrow> scan_max C xs p best bv < p + length xs"
proof (induction xs arbitrary: p best bv)
  case Nil
  then show ?case by simp
next
  case (Cons x xs)
  have "scan_max C xs (Suc p) p x < Suc p + length xs"
    by (rule Cons.IH) simp
  moreover have "scan_max C xs (Suc p) best bv < Suc p + length xs"
    by (rule Cons.IH) (use Cons.prems in simp)
  ultimately show ?case
    using Cons.prems by simp
qed

lemma cappedMax_below: "l \<le> n \<Longrightarrow> r \<le> n \<Longrightarrow> cappedMax S l r C \<le> n"
proof -
  assume l: "l \<le> n" and r: "r \<le> n"
  show ?thesis
  proof (cases "take (Suc r - l) (drop l S)")
    case Nil
    show ?thesis
      unfolding cappedMax_def Nil using l by simp
  next
    case (Cons x xs)
    then have "length (x # xs) \<le> Suc r - l"
      by (metis length_take min.cobounded2)
    then have "Suc l + length xs \<le> Suc r"
      by simp
    moreover have "scan_max C xs (Suc l) l x < Suc l + length xs"
      by (rule scan_max_below) simp
    ultimately show ?thesis
      using r by (simp add: cappedMax_def Cons)
  qed
qed

text \<open>\<^verbatim>\<open>getMinMaxOfChildren\<close> returns a son.\<close>

lemma getMinMaxOfChildren_loop_returns:
  assumes wf: "wellformed m b t"
  shows "ptr_chain k (\<lambda>q. right_sibling (nodes t ! q)) c \<Longrightarrow> k < fuel \<Longrightarrow>
         c < length (nodes t) \<Longrightarrow> 0 < r \<Longrightarrow> r < length (nodes t) \<Longrightarrow>
         \<exists>h. getMinMaxOfChildren_loop fuel t r c = Inr h \<and> 0 < h \<and> h < length (nodes t)"
proof (induction fuel arbitrary: k r c)
  case 0
  then show ?case by simp
next
  case (Suc fuel)
  show ?case
  proof (cases "c = 0")
    case True
    with Suc.prems show ?thesis by simp
  next
    case False
    with Suc.prems(1) obtain k' where k: "k = Suc k'"
      and ch: "ptr_chain k' (\<lambda>q. right_sibling (nodes t ! q)) (right_sibling (nodes t ! c))"
      using ptr_chain_step by blast
    from k Suc.prems(2) have k': "k' < fuel"
      by simp
    have okc: "node_ok m b t (nodes t ! c)" and okr: "node_ok m b t (nodes t ! r)"
      using node_ok_nth [OF wf] Suc.prems by simp_all
    from okc have rs: "right_sibling (nodes t ! c) < length (nodes t)"
      by (simp add: node_ok_def)
    have "\<exists>better.
      (if optimisticMinMax (annot (nodes t ! r)) > optimisticMinMax (annot (nodes t ! c))
        then Inr True
        else if optimisticMinMax (annot (nodes t ! r)) = optimisticMinMax (annot (nodes t ! c))
        then ebind (rd (D_arr t) (optimisticTextPos (annot (nodes t ! r)))) (\<lambda>dr.
             ebind (rd (D_arr t) (optimisticTextPos (annot (nodes t ! c)))) (\<lambda>dc.
               Inr (dr < dc)))
        else Inr False) = (Inr better :: err + bool)"
      using okc okr by (auto simp: node_ok_def rd_def)
    then obtain better where better:
      "(if optimisticMinMax (annot (nodes t ! r)) > optimisticMinMax (annot (nodes t ! c))
        then Inr True
        else if optimisticMinMax (annot (nodes t ! r)) = optimisticMinMax (annot (nodes t ! c))
        then ebind (rd (D_arr t) (optimisticTextPos (annot (nodes t ! r)))) (\<lambda>dr.
             ebind (rd (D_arr t) (optimisticTextPos (annot (nodes t ! c)))) (\<lambda>dc.
               Inr (dr < dc)))
        else Inr False) = (Inr better :: err + bool)"
      by blast
    have r': "0 < (if better then c else r)" "(if better then c else r) < length (nodes t)"
      using False Suc.prems by simp_all
    from Suc.IH [OF ch k' rs r'] obtain h where
      "getMinMaxOfChildren_loop fuel t (if better then c else r) (right_sibling (nodes t ! c)) =
         Inr h" and "0 < h" and "h < length (nodes t)"
      by blast
    then show ?thesis
      using False Suc.prems better by (simp add: node_at_nth)
  qed
qed

lemma getMinMaxOfChildren_returns:
  assumes "wellformed m b t" and "0 < parent" and "parent < length (nodes t)"
    and "sons (nodes t ! parent) \<noteq> 0" and "b < fuel"
  shows "\<exists>h. getMinMaxOfChildren fuel t parent = Inr h \<and> 0 < h \<and> h < length (nodes t)"
proof -
  have ok: "node_ok m b t (nodes t ! parent)"
    using node_ok_nth [OF assms(1,3)] .
  then have "ptr_chain b (\<lambda>q. right_sibling (nodes t ! q)) (sons (nodes t ! parent))"
    and "sons (nodes t ! parent) < length (nodes t)"
    by (simp_all add: node_ok_def)
  from getMinMaxOfChildren_loop_returns [OF assms(1) this(1) assms(5) this(2) _ this(2)]
    assms(2,3,4)
  show ?thesis
    by (simp add: getMinMaxOfChildren_def node_at_nth)
qed

text \<open>One ancestor: lines 692 to 773.\<close>

lemma commit_step_returns:
  assumes wf: "wellformed m b t" and p: "0 < parent" "parent < length (nodes t)"
    and tp: "tp \<le> finalPos" and fin: "finalPos \<le> length_t t"
  shows "\<exists>t1. commit_step t parent tp finalPos = Inr t1 \<and>
           (t1 = t \<or> (\<exists>c. t1 = set_node t parent (commit (nodes t ! parent) c tp)))"
proof -
  have ok: "node_ok m b t (nodes t ! parent)"
    using node_ok_nth [OF wf p(2)] .
  have len: "length_t t < length (costArray t)" "length_t t < length (D_arr t)"
    using wf by (simp_all add: wellformed_def)
  have d1: "tp < length (D_arr t)"
    using tp fin len by simp
  have d2: "textPos (annot (nodes t ! parent)) < length (D_arr t)"
    using ok by (simp add: node_ok_def)
  have c: "range_fits tp d finalPos \<Longrightarrow>
           cappedMax (segm t) tp (tp + d - 1) (COST t) < length (costArray t)" for d
    using cappedMax_below [of tp finalPos "tp + d - 1" "segm t" "COST t"] tp fin len
    by (simp add: range_fits_def)
  show ?thesis
    using d1 d2 c [of "strDepth (nodes t ! parent)"] p
    by (auto simp: commit_step_def candidate_cost_def node_at_nth rd_def)
qed

lemma optimistic_step_returns:
  assumes wf: "wellformed m b t" and p: "0 < parent" "parent < length (nodes t)"
    and h: "0 < holder" "holder < length (nodes t)" and tp: "tp < length (D_arr t)"
  shows "\<exists>v pos. optimistic_step t parent holder tp mmr =
                    Inr (set_node t parent (adopt (nodes t ! parent) v pos)) \<and>
                  pos < length (D_arr t)"
proof -
  have okp: "node_ok m b t (nodes t ! parent)" and okh: "node_ok m b t (nodes t ! holder)"
    using node_ok_nth [OF wf] p h by simp_all
  then show ?thesis
    using p h tp
    by (auto simp: optimistic_step_def node_at_nth rd_def node_ok_def)
qed

lemma ancestor_step_returns:
  assumes wf: "wellformed m b t" and p: "0 < parent" "parent < length (nodes t)"
    and s: "sons (nodes t ! parent) \<noteq> 0" and b: "b < fuel"
    and tp: "tp \<le> finalPos" and fin: "finalPos \<le> length_t t"
  shows "\<exists>holder t1 t2.
           getMinMaxOfChildren fuel t parent = Inr holder \<and>
           commit_step t parent tp finalPos = Inr t1 \<and>
           optimistic_step t1 parent holder tp mmr = Inr t2 \<and>
           wellformed m b t2 \<and> length_t t2 = length_t t \<and>
           length (nodes t2) = length (nodes t) \<and>
           (\<lambda>x. father (nodes t2 ! x)) = (\<lambda>x. father (nodes t ! x)) \<and>
           (\<forall>x. sons (nodes t2 ! x) = sons (nodes t ! x))"
proof -
  from getMinMaxOfChildren_returns [OF wf p s b] obtain holder where
    h: "getMinMaxOfChildren fuel t parent = Inr holder" "0 < holder" "holder < length (nodes t)"
    by blast
  from commit_step_returns [OF wf p tp fin] obtain t1 where
    c: "commit_step t parent tp finalPos = Inr t1"
    and t1: "t1 = t \<or> (\<exists>c. t1 = set_node t parent (commit (nodes t ! parent) c tp))"
    by blast
  have len: "length_t t < length (D_arr t)"
    using wf by (simp add: wellformed_def)
  then have d: "tp < length (D_arr t)"
    using tp fin by simp
  have ok: "node_ok m b t (nodes t ! parent)"
    using node_ok_nth [OF wf p(2)] .
  have wf1: "wellformed m b t1 \<and> length_t t1 = length_t t \<and>
             length (nodes t1) = length (nodes t) \<and> D_arr t1 = D_arr t \<and>
             (\<lambda>x. father (nodes t1 ! x)) = (\<lambda>x. father (nodes t ! x)) \<and>
             (\<forall>x. sons (nodes t1 ! x) = sons (nodes t ! x))"
  proof (cases "t1 = t")
    case True
    with wf show ?thesis by simp
  next
    case False
    with t1 obtain cst where e: "t1 = set_node t parent (commit (nodes t ! parent) cst tp)"
      by blast
    have "wellformed m b t1"
      and "(\<lambda>x. father (nodes t1 ! x)) = (\<lambda>x. father (nodes t ! x))"
      and "\<And>x. sons (nodes t1 ! x) = sons (nodes t ! x)"
      unfolding e
      using ok d
      by (auto intro!: wellformed_set_node [OF wf p(2)] simp: commit_def node_ok_def)
    then show ?thesis
      by (simp add: e set_node_def)
  qed
  then have wf1': "wellformed m b t1" and n1: "length (nodes t1) = length (nodes t)"
    and d1: "D_arr t1 = D_arr t"
    by simp_all
  from optimistic_step_returns [OF wf1', of parent holder tp mmr] p h d n1 d1
  obtain v pos where
    o: "optimistic_step t1 parent holder tp mmr =
          Inr (set_node t1 parent (adopt (nodes t1 ! parent) v pos))"
    and pos: "pos < length (D_arr t1)"
    by auto
  let ?t2 = "set_node t1 parent (adopt (nodes t1 ! parent) v pos)"
  have ok1: "node_ok m b t1 (nodes t1 ! parent)"
    using node_ok_nth [OF wf1'] p n1 by simp
  have p1: "parent < length (nodes t1)"
    using p n1 by simp
  have "wellformed m b ?t2"
    and "(\<lambda>x. father (nodes ?t2 ! x)) = (\<lambda>x. father (nodes t1 ! x))"
    and "\<And>x. sons (nodes ?t2 ! x) = sons (nodes t1 ! x)"
    using ok1 pos
    by (auto intro!: wellformed_set_node [OF wf1' p1] simp: adopt_def node_ok_def)
  with wf1 h c o show ?thesis
    by (simp add: set_node_def)
qed

text \<open>The loop over the ancestors, one call for a leaf, and the loop over the positions.\<close>

lemma changeAnnotation_loop_returns:
  "wellformed m b t \<Longrightarrow> ptr_chain k (\<lambda>q. father (nodes t ! q)) parent \<Longrightarrow> k + b < fuel \<Longrightarrow>
   parent < length (nodes t) \<Longrightarrow> parent = 0 \<or> sons (nodes t ! parent) \<noteq> 0 \<Longrightarrow>
   tp \<le> finalPos \<Longrightarrow> finalPos \<le> length_t t \<Longrightarrow>
   \<exists>t'. changeAnnotation_loop fuel tp finalPos len mmr t parent = Inr t' \<and>
        wellformed m b t' \<and> length_t t' = length_t t"
proof (induction fuel arbitrary: k t parent)
  case 0
  then show ?case by simp
next
  case (Suc fuel)
  note wf = Suc.prems(1)
  show ?case
  proof (cases "parent = 0 \<or> \<not> int (strDepth (nodes t ! parent)) > len")
    case True
    with wf Suc.prems(4) show ?thesis
      by (auto simp: node_at_nth)
  next
    case False
    then have p: "0 < parent" "parent < length (nodes t)"
      and deep: "int (strDepth (nodes t ! parent)) > len"
      using Suc.prems(4) by simp_all
    from Suc.prems(5) p have s: "sons (nodes t ! parent) \<noteq> 0"
      by simp
    from Suc.prems(3) have b: "b < Suc fuel"
      by simp
    from ancestor_step_returns [OF wf p s b Suc.prems(6,7), of mmr]
    obtain holder t1 t2 where
      h: "getMinMaxOfChildren (Suc fuel) t parent = Inr holder"
      and c: "commit_step t parent tp finalPos = Inr t1"
      and o: "optimistic_step t1 parent holder tp mmr = Inr t2"
      and wf2: "wellformed m b t2" and l2: "length_t t2 = length_t t"
      and n2: "length (nodes t2) = length (nodes t)"
      and fa: "(\<lambda>x. father (nodes t2 ! x)) = (\<lambda>x. father (nodes t ! x))"
      and so: "\<forall>x. sons (nodes t2 ! x) = sons (nodes t ! x)"
      by blast
    have f2: "father (nodes t2 ! parent) = father (nodes t ! parent)"
      using fun_cong [OF fa, of parent] .
    from Suc.prems(2) p obtain k' where k: "k = Suc k'"
      and ch: "ptr_chain k' (\<lambda>q. father (nodes t ! q)) (father (nodes t ! parent))"
      using ptr_chain_step [of k "\<lambda>q. father (nodes t ! q)" parent] by auto
    have ch2: "ptr_chain k' (\<lambda>q. father (nodes t2 ! q)) (father (nodes t2 ! parent))"
      unfolding fa f2 by (rule ch)
    have k': "k' + b < fuel"
      using Suc.prems(3) k by simp
    have ok: "node_ok m b t (nodes t ! parent)"
      using node_ok_nth [OF wf p(2)] .
    have up: "father (nodes t2 ! parent) < length (nodes t2)"
      using ok by (simp add: node_ok_def f2 n2)
    have us: "father (nodes t2 ! parent) = 0 \<or> sons (nodes t2 ! father (nodes t2 ! parent)) \<noteq> 0"
      using ok so by (simp add: node_ok_def f2)
    have fin2: "finalPos \<le> length_t t2"
      using Suc.prems(7) l2 by simp
    from Suc.IH [OF wf2 ch2 k' up us Suc.prems(6) fin2]
    obtain t' where
      "changeAnnotation_loop fuel tp finalPos len mmr t2 (father (nodes t2 ! parent)) = Inr t'"
      and "wellformed m b t'" and "length_t t' = length_t t2"
      by blast
    then show ?thesis
      using p deep h c o n2 l2 by (simp add: node_at_nth)
  qed
qed

lemma changeAnnotationFromLeaf_returns:
  assumes wf: "wellformed m b t" and fuel: "m + b < fuel"
    and tp: "1 \<le> tp" "tp \<le> finalPos" and fin: "finalPos \<le> length_t t"
  shows "\<exists>t'. changeAnnotationFromLeaf fuel tp finalPos len mmr t = Inr t' \<and>
           wellformed m b t' \<and> length_t t' = length_t t"
proof -
  let ?leaf = "inversePointers t ! tp"
  let ?l = "nodes t ! ?leaf"
  let ?t1 = "if mmr > minMax (annot ?l) \<or> minMax (annot ?l) = UNSET
             then set_node t ?leaf
                    (?l\<lparr>annot := (annot ?l)\<lparr>minMax := mmr, optimisticMinMax := mmr\<rparr>\<rparr>)
             else t"
  have ip: "tp < length (inversePointers t)"
    using wf tp fin by (simp add: wellformed_def)
  have leaf: "0 < ?leaf" "?leaf < length (nodes t)"
    using wellformed_position [OF wf tp(1)] tp fin by simp_all
  have ok: "node_ok m b t ?l"
    using node_ok_nth [OF wf leaf(2)] .
  have wf1: "wellformed m b ?t1"
    and fa: "(\<lambda>x. father (nodes ?t1 ! x)) = (\<lambda>x. father (nodes t ! x))"
    and so: "\<And>x. sons (nodes ?t1 ! x) = sons (nodes t ! x)"
    using wf ok
    by (auto intro!: wellformed_set_node [OF wf leaf(2)] simp: node_ok_def)
  have l1: "length_t ?t1 = length_t t" and n1: "length (nodes ?t1) = length (nodes t)"
    by (simp_all add: set_node_def)
  have ch: "ptr_chain m (\<lambda>q. father (nodes ?t1 ! q)) (father ?l)"
    unfolding fa using ok by (simp add: node_ok_def)
  have up: "father ?l < length (nodes ?t1)"
    unfolding n1 using ok by (simp add: node_ok_def)
  have us: "father ?l = 0 \<or> sons (nodes ?t1 ! father ?l) \<noteq> 0"
    unfolding so using ok by (simp add: node_ok_def)
  have fin1: "finalPos \<le> length_t ?t1"
    unfolding l1 by (rule fin)
  from changeAnnotation_loop_returns [OF wf1 ch fuel up us tp(2) fin1, of len mmr]
  obtain t' where
    "changeAnnotation_loop fuel tp finalPos len mmr ?t1 (father ?l) = Inr t'"
    and "wellformed m b t'" and "length_t t' = length_t ?t1"
    by blast
  then show ?thesis
    using ip leaf l1
    by (simp add: changeAnnotationFromLeaf_def rd_def node_at_nth Let_def)
qed

lemma propagate_loop_returns:
  "wellformed m b t \<Longrightarrow> m + b < fuel \<Longrightarrow> i \<le> tp + len \<Longrightarrow> tp + len \<le> length_t t \<Longrightarrow>
   \<exists>t'. propagate_loop fuel tp len t cur i = Inr t'"
proof (induction i arbitrary: t cur)
  case 0
  show ?case by simp
next
  case (Suc i)
  note wf = Suc.prems(1)
  let ?cur = "if cur < costArray t ! Suc i then costArray t ! Suc i else cur"
  have pos: "1 \<le> Suc i" "Suc i \<le> length_t t"
    using Suc.prems(3,4) by simp_all
  have len: "Suc i < length (costArray t)" "Suc i < length (maxStrDepth t)"
    using wf pos by (simp_all add: wellformed_def)
  from wellformed_position(3) [OF wf pos] obtain v where v: "maxStrDepth t ! Suc i = Some v"
    by blast
  show ?case
  proof (cases "v < tp")
    case True
    with len v show ?thesis
      by (simp add: rd_def rd_init_def Let_def)
  next
    case False
    from changeAnnotationFromLeaf_returns [OF wf Suc.prems(2) pos(1) Suc.prems(3,4),
        of "int tp - int (Suc i)" ?cur]
    obtain t' where
      c: "changeAnnotationFromLeaf fuel (Suc i) (tp + len) (int tp - int (Suc i)) ?cur t = Inr t'"
      and wf': "wellformed m b t'" and l': "length_t t' = length_t t"
      by blast
    have "\<exists>t''. propagate_loop fuel tp len t' ?cur i = Inr t''"
      by (rule Suc.IH [OF wf' Suc.prems(2)]) (use Suc.prems(3,4) l' in simp_all)
    with False len v c show ?thesis
      by (simp add: rd_def rd_init_def Let_def)
  qed
qed

lemma propagateAnnotation_returns:
  assumes "wellformed m b t" and "m + b < fuel" and "tp + len \<le> length_t t"
  shows "\<exists>t'. propagateAnnotation fuel tp len t = Inr t'"
  unfolding propagateAnnotation_def
  by (rule propagate_loop_returns [OF assms(1,2) _ assms(3)]) simp

text \<open>The iteration for a phrase of length 0.\<close>

lemma parse_update_literal:
  assumes "wellformed m b (ptree st)" and "ptextPos st \<le> length_t (ptree st)"
  shows "parse_update st \<lparr>mlength = 0, mpos = 0\<rparr> =
           Inr ((ptree st)\<lparr>costArray := (costArray (ptree st))[ptextPos st := 0],
                           segm := segmUpdate (segm (ptree st)) (ptextPos st) 0\<rparr>,
                positionOfPreviousC st)"
  using assms
  by (simp add: parse_update_def update_costs.simps wr_def wellformed_def)

lemma wellformed_costs:
  "wellformed m b t \<Longrightarrow> length ca = length (costArray t) \<Longrightarrow>
   wellformed m b (t\<lparr>costArray := ca, segm := s\<rparr>)"
proof -
  have "node_ok m b (t\<lparr>costArray := ca, segm := s\<rparr>) = node_ok m b t"
    by (rule ext) (simp add: node_ok_def)
  then show "wellformed m b t \<Longrightarrow> length ca = length (costArray t) \<Longrightarrow>
    wellformed m b (t\<lparr>costArray := ca, segm := s\<rparr>)"
    by (simp add: wellformed_def)
qed

lemma ptr_chain_numeral:
  "ptr_chain (numeral k) nxt q \<longleftrightarrow> q = 0 \<or> ptr_chain (pred_numeral k) nxt (nxt q)"
  by (simp add: numeral_eq_Suc)

lemma find_son_fuel: "find_son fuel t node c = Inr r \<Longrightarrow> 0 < fuel"
  by (cases fuel) (auto simp: find_son_def ebind_Inr_iff)

text \<open>
  C10. When \<^verbatim>\<open>find_son\<close> returns the null pointer for the first character of \<open>W\<close> at the root,
  \<^verbatim>\<open>ST_FindSubstring\<close> returns the match of length 0 and position 0, for every \<open>W\<close> and \<open>P\<close>.
  Whenever the query of an iteration of the parser returns this match (it also does when the
  son exists and its optimistic annotation is unset, as for the first occurrence of a byte
  in a run), on a well-formed tree with enough fuel for its lists of sons and its paths to
  the root, the iteration returns: it appends the phrase with source field \<open>-1\<close>, length
  0 and the byte at the current position as literal, and moves to the next position.
\<close>

theorem bare_literal:
  "(rd W 0 = Inr c \<and> find_son fuel t (root t) c = Inr 0 \<longrightarrow>
      ST_FindSubstring fuel t W P = Inr \<lparr>mlength = 0, mpos = 0\<rparr>) \<and>
   (wellformed m b (ptree st) \<and> m + b < fuel \<and>
    1 \<le> ptextPos st \<and> ptextPos st \<le> length_t (ptree st) \<and>
    ST_FindSubstring fuel (ptree st) (drop (ptextPos st - 1) (tree_string (ptree st)))
      (length_t (ptree st)) = Inr \<lparr>mlength = 0, mpos = 0\<rparr> \<longrightarrow>
      (\<exists>t3. parse_iteration fuel st =
         Inr \<lparr>ptree = t3, ptextPos = ptextPos st + 1, z = z st + 1,
              positionOfPreviousC = positionOfPreviousC st,
              printed = printed st @ [(- 1, 0, tree_string (ptree st) ! (ptextPos st - 1))],
              queries = queries st @ [(ptextPos st, length_t (ptree st))]\<rparr>))"
proof (rule conjI; rule impI)
  assume a: "rd W 0 = Inr c \<and> find_son fuel t (root t) c = Inr 0"
  then obtain k where "fuel = Suc k"
    using find_son_fuel [of fuel t "root t" c 0] by (cases fuel) simp_all
  with a show "ST_FindSubstring fuel t W P = Inr \<lparr>mlength = 0, mpos = 0\<rparr>"
    by (simp add: ST_FindSubstring_def)
next
  let ?t = "ptree st"
  let ?tp = "ptextPos st"
  let ?t2 = "?t\<lparr>costArray := (costArray ?t)[?tp := 0], segm := segmUpdate (segm ?t) ?tp 0\<rparr>"
  assume a: "wellformed m b ?t \<and> m + b < fuel \<and> 1 \<le> ?tp \<and> ?tp \<le> length_t ?t \<and>
    ST_FindSubstring fuel ?t (drop (?tp - 1) (tree_string ?t)) (length_t ?t) =
      Inr \<lparr>mlength = 0, mpos = 0\<rparr>"
  then have wf: "wellformed m b ?t" and fuel: "m + b < fuel" and tp: "1 \<le> ?tp" "?tp \<le> length_t ?t"
    and q: "ST_FindSubstring fuel ?t (drop (?tp - 1) (tree_string ?t)) (length_t ?t) =
      Inr \<lparr>mlength = 0, mpos = 0\<rparr>"
    by simp_all
  have u: "parse_update st \<lparr>mlength = 0, mpos = 0\<rparr> = Inr (?t2, positionOfPreviousC st)"
    using parse_update_literal [OF wf tp(2)] .
  have wf2: "wellformed m b ?t2"
    by (rule wellformed_costs [OF wf]) simp
  have "?tp + 0 \<le> length_t ?t2"
    using tp by simp
  from propagateAnnotation_returns [OF wf2 fuel this] obtain t3 where
    p: "propagateAnnotation fuel ?tp 0 ?t2 = Inr t3"
    by blast
  have "tree_string t3 = tree_string ?t2"
    using frame_fields(3) [OF frame_propagateAnnotation [OF p]] .
  then have ts: "tree_string t3 = tree_string ?t"
    by simp
  have "length_t ?t \<le> length (tree_string ?t)"
    using wf by (simp add: wellformed_def)
  with tp have "?tp - 1 < length (tree_string ?t)"
    by simp
  then have lit: "ts_at t3 ?tp = Inr (tree_string ?t ! (?tp - 1))"
    using tp by (simp add: ts_at_def rd_def ts)
  show "\<exists>t3. parse_iteration fuel st =
         Inr \<lparr>ptree = t3, ptextPos = ?tp + 1, z = z st + 1,
              positionOfPreviousC = positionOfPreviousC st,
              printed = printed st @ [(- 1, 0, tree_string ?t ! (?tp - 1))],
              queries = queries st @ [(?tp, length_t ?t)]\<rparr>"
    using q u p lit by (simp add: parse_iteration_def)
qed

theorem bare_literal_witness:
  "rd [3 :: byte] 0 = Inr 3 \<and>
   find_son fuel12 (ptree state_abbb_1) (root (ptree state_abbb_1)) 3 = Inr 0 \<and>
   ST_FindSubstring fuel12 (ptree state_abbb_1) [3] 1 = Inr \<lparr>mlength = 0, mpos = 0\<rparr> \<and>
   main_steps fuel12 (Suc 0)
     \<lparr>argc = 3, input_file = Some [1, 2, 2, 2], maxc = 1, heap = 100, memory = junk\<rparr> =
     Inr state_abbb_1 \<and>
   wellformed 3 3 (ptree state_abbb_1) \<and> 3 + 3 < fuel12 \<and>
   1 \<le> ptextPos state_abbb_1 \<and> ptextPos state_abbb_1 \<le> length_t (ptree state_abbb_1) \<and>
   find_son fuel12 (ptree state_abbb_1) (root (ptree state_abbb_1)) 2 = Inr 6 \<and>
   ST_FindSubstring fuel12 (ptree state_abbb_1)
     (drop (ptextPos state_abbb_1 - 1) (tree_string (ptree state_abbb_1)))
     (length_t (ptree state_abbb_1)) = Inr \<lparr>mlength = 0, mpos = 0\<rparr> \<and>
   (\<exists>t3. parse_iteration fuel12 state_abbb_1 =
      Inr \<lparr>ptree = t3, ptextPos = 3, z = 2, positionOfPreviousC = 0,
           printed = [(- 1, 0, 1), (- 1, 0, 2)], queries = [(1, 5), (2, 5)]\<rparr>)"
proof -
  have a: "rd [3 :: byte] 0 = Inr 3"
    "find_son fuel12 (ptree state_abbb_1) (root (ptree state_abbb_1)) 3 = Inr 0"
    by (simp_all add: eval_rules state_abbb_1_def cong: ebind_weak_cong)
  have w: "wellformed 3 3 (ptree state_abbb_1)"
    by (simp add: wellformed_def node_ok_def ptr_chain_numeral mk_node_def state_abbb_1_def upt_rec)
  have f: "3 + 3 < fuel12" "1 \<le> ptextPos state_abbb_1"
    "ptextPos state_abbb_1 \<le> length_t (ptree state_abbb_1)"
    by (simp_all add: fuel12_def state_abbb_1_def)
  have s: "find_son fuel12 (ptree state_abbb_1) (root (ptree state_abbb_1)) 2 = Inr 6"
    by (simp add: eval_rules state_abbb_1_def cong: ebind_weak_cong)
  have q: "ST_FindSubstring fuel12 (ptree state_abbb_1)
     (drop (ptextPos state_abbb_1 - 1) (tree_string (ptree state_abbb_1)))
     (length_t (ptree state_abbb_1)) = Inr \<lparr>mlength = 0, mpos = 0\<rparr>"
    by (simp add: eval_rules state_abbb_1_def cong: ebind_weak_cong)
  have v: "ptextPos state_abbb_1 + 1 = 3" "z state_abbb_1 + 1 = 2"
    "positionOfPreviousC state_abbb_1 = 0"
    "printed state_abbb_1 @
       [(- 1, 0, tree_string (ptree state_abbb_1) ! (ptextPos state_abbb_1 - 1))] =
     [(- 1, 0, 1), (- 1, 0, 2)]"
    "queries state_abbb_1 @ [(ptextPos state_abbb_1, length_t (ptree state_abbb_1))] =
     [(1, 5), (2, 5)]"
    by (simp_all add: state_abbb_1_def)
  from bare_literal [of "[3]" 3 fuel12 "ptree state_abbb_1" 1 3 3 state_abbb_1] a w f q
  have "ST_FindSubstring fuel12 (ptree state_abbb_1) [3] 1 = Inr \<lparr>mlength = 0, mpos = 0\<rparr>"
    and "\<exists>t3. parse_iteration fuel12 state_abbb_1 =
         Inr \<lparr>ptree = t3, ptextPos = ptextPos state_abbb_1 + 1, z = z state_abbb_1 + 1,
              positionOfPreviousC = positionOfPreviousC state_abbb_1,
              printed = printed state_abbb_1 @
                [(- 1, 0, tree_string (ptree state_abbb_1) ! (ptextPos state_abbb_1 - 1))],
              queries = queries state_abbb_1 @
                [(ptextPos state_abbb_1, length_t (ptree state_abbb_1))]\<rparr>"
    by simp_all
  with a reach_abbb_1 w f s q show ?thesis
    by (simp only: v simp_thms)
qed

subsection \<open>The calls made by the propagation\<close>

text \<open>
  The specification of \<^verbatim>\<open>propagateAnnotation(textPos, len)\<close>, as a list of calls:
  \<open>range_max U i j\<close> is the maximum of \<open>U[i..j]\<close>, starting from 0; \<open>spec_positions\<close> are the
  positions \<open>i = textPos+len, textPos+len-1, ..., 1\<close> before the first one with
  \<open>maxStrDepth[i] < textPos\<close>; \<open>spec_calls\<close> gives, for each of them, the arguments
  \<open>(i, textPos+len, textPos-i, max U[i..textPos+len])\<close> of \<^verbatim>\<open>changeAnnotationFromLeaf\<close>;
  \<open>run_calls\<close> makes the calls of a list in order, each on the tree that the previous one
  returned.
\<close>

definition range_max :: "nat list \<Rightarrow> nat \<Rightarrow> nat \<Rightarrow> nat" where
  "range_max U i j = fold max (map (\<lambda>p. U ! p) [i..<Suc j]) 0"

definition spec_positions :: "nat option list \<Rightarrow> nat \<Rightarrow> nat \<Rightarrow> nat list" where
  "spec_positions msd tp len =
     takeWhile (\<lambda>i. tp \<le> the (msd ! i)) (rev [1..<Suc (tp + len)])"

definition spec_calls ::
  "SUFFIX_TREE \<Rightarrow> nat \<Rightarrow> nat \<Rightarrow> (nat \<times> nat \<times> int \<times> nat) list" where
  "spec_calls t tp len =
     map (\<lambda>i. (i, tp + len, int tp - int i, range_max (costArray t) i (tp + len)))
       (spec_positions (maxStrDepth t) tp len)"

fun run_calls ::
  "nat \<Rightarrow> (nat \<times> nat \<times> int \<times> nat) list \<Rightarrow> SUFFIX_TREE \<Rightarrow> err + SUFFIX_TREE" where
  "run_calls fuel [] t = Inr t"
| "run_calls fuel ((i, finalPos, len, cur) # cs) t =
     ebind (changeAnnotationFromLeaf fuel i finalPos len cur t) (run_calls fuel cs)"

definition tree_abbb_costs :: SUFFIX_TREE where
  "tree_abbb_costs =
     (ptree state_abbb_2)\<lparr>costArray := [5, 0, 0, 1, 1, 0], D_arr := [- 1, 2, 1, 0, 0, - 1],
                           segm := [5, 0, 0, 1, 1, 0]\<rparr>"

lemma fold_max_acc: "fold max xs (max a b) = max b (fold max xs (a :: nat))"
  by (induction xs arbitrary: a) (simp_all add: max.assoc [symmetric])

lemma frame_changeAnnotationFromLeaf:
  "changeAnnotationFromLeaf fuel i fp l c t = Inr t' \<Longrightarrow> frame t t'"
  by (rule framedD [OF framed_changeAnnotationFromLeaf])

lemma propagate_loop_calls:
  assumes "costArray t = U" and "maxStrDepth t = msd"
    and "i < length U" and "i < length msd"
    and "\<forall>j. 1 \<le> j \<and> j \<le> i \<longrightarrow> msd ! j \<noteq> None"
  shows "propagate_loop fuel tp len t cur i =
           run_calls fuel
             (map (\<lambda>j. (j, tp + len, int tp - int j, fold max (map (\<lambda>p. U ! p) [j..<Suc i]) cur))
                (takeWhile (\<lambda>j. tp \<le> the (msd ! j)) (rev [1..<Suc i]))) t"
  using assms
proof (induction i arbitrary: t cur)
  case 0
  show ?case by simp
next
  case (Suc i)
  let ?cur = "if cur < U ! Suc i then U ! Suc i else cur"
  from Suc.prems obtain m where m: "msd ! Suc i = Some m"
    by (metis le_refl not_None_eq le_add1 plus_1_eq_Suc)
  have r1: "rd (costArray t) (Suc i) = Inr (U ! Suc i)"
    using Suc.prems by (simp add: rd_def)
  have r2: "rd_init (maxStrDepth t) (Suc i) = Inr m"
    using Suc.prems m by (simp add: rd_init_def)
  have up: "rev [1..<Suc (Suc i)] = Suc i # rev [1..<Suc i]"
    by simp
  have up': "rev [Suc 0..<Suc (Suc i)] = Suc i # rev [Suc 0..<Suc i]"
    by simp
  show ?case
  proof (cases "m < tp")
    case True
    then show ?thesis
      by (simp add: r1 r2 m up' del: upt_Suc)
  next
    case False
    have tail: "propagate_loop fuel tp len t' ?cur i =
        run_calls fuel
          (map (\<lambda>j. (j, tp + len, int tp - int j,
                       fold max (map (\<lambda>p. U ! p) [j..<Suc (Suc i)]) cur))
             (takeWhile (\<lambda>j. tp \<le> the (msd ! j)) (rev [1..<Suc i]))) t'"
      if c: "changeAnnotationFromLeaf fuel (Suc i) (tp + len) (int tp - int (Suc i)) ?cur t =
               Inr t'" for t'
    proof -
      have f: "costArray t' = U" "maxStrDepth t' = msd"
        using frame_fields(2,7) [OF frame_changeAnnotationFromLeaf [OF c]] Suc.prems(1,2)
        by simp_all
      have ih: "propagate_loop fuel tp len t' ?cur i =
        run_calls fuel
          (map (\<lambda>j. (j, tp + len, int tp - int j, fold max (map (\<lambda>p. U ! p) [j..<Suc i]) ?cur))
             (takeWhile (\<lambda>j. tp \<le> the (msd ! j)) (rev [1..<Suc i]))) t'"
        using Suc.prems by (intro Suc.IH f) auto
      have "fold max (map (\<lambda>p. U ! p) [j..<Suc i]) ?cur =
            fold max (map (\<lambda>p. U ! p) [j..<Suc (Suc i)]) cur"
        if "j \<in> set (takeWhile (\<lambda>j. tp \<le> the (msd ! j)) (rev [1..<Suc i]))" for j
      proof -
        from that have "j \<in> set (rev [1..<Suc i])"
          by (rule set_takeWhileD [THEN conjunct1])
        then have "j \<le> Suc i" by auto
        then have "[j..<Suc (Suc i)] = [j..<Suc i] @ [Suc i]" by simp
        moreover have "?cur = max cur (U ! Suc i)" by (simp add: max_def)
        ultimately show ?thesis
          by (simp add: fold_max_acc max.commute del: upt_Suc)
      qed
      then have "map (\<lambda>j. (j, tp + len, int tp - int j,
                    fold max (map (\<lambda>p. U ! p) [j..<Suc i]) ?cur))
                  (takeWhile (\<lambda>j. tp \<le> the (msd ! j)) (rev [1..<Suc i])) =
                map (\<lambda>j. (j, tp + len, int tp - int j,
                    fold max (map (\<lambda>p. U ! p) [j..<Suc (Suc i)]) cur))
                  (takeWhile (\<lambda>j. tp \<le> the (msd ! j)) (rev [1..<Suc i]))"
        by (intro map_cong refl) simp
      with ih show ?thesis by (simp only:)
    qed
    have one: "fold max (map (\<lambda>p. U ! p) [Suc i..<Suc (Suc i)]) cur = ?cur"
      by (simp add: max_def)
    have "propagate_loop fuel tp len t cur (Suc i) =
          ebind (changeAnnotationFromLeaf fuel (Suc i) (tp + len) (int tp - int (Suc i)) ?cur t)
            (\<lambda>t'. propagate_loop fuel tp len t' ?cur i)"
      using False by (simp add: r1 r2 Let_def)
    also have "\<dots> =
          ebind (changeAnnotationFromLeaf fuel (Suc i) (tp + len) (int tp - int (Suc i)) ?cur t)
            (run_calls fuel
              (map (\<lambda>j. (j, tp + len, int tp - int j,
                       fold max (map (\<lambda>p. U ! p) [j..<Suc (Suc i)]) cur))
                 (takeWhile (\<lambda>j. tp \<le> the (msd ! j)) (rev [1..<Suc i]))))"
      by (rule ebind_cong) (simp_all add: tail)
    also have "\<dots> = run_calls fuel
             (map (\<lambda>j. (j, tp + len, int tp - int j,
                     fold max (map (\<lambda>p. U ! p) [j..<Suc (Suc i)]) cur))
                (takeWhile (\<lambda>j. tp \<le> the (msd ! j)) (rev [1..<Suc (Suc i)]))) t"
      using False by (simp only: up takeWhile.simps m option.sel list.map run_calls.simps one)
        (simp add: one del: upt_Suc)
    finally show ?thesis .
  qed
qed

text \<open>
  C8. \<^verbatim>\<open>propagateAnnotation(textPos, len, tree)\<close> makes exactly the calls
  \<^verbatim>\<open>changeAnnotationFromLeaf(i, textPos+len, textPos-i, currentMinMaxOfRange, tree)\<close> for
  \<open>i\<close> going down from \<open>textPos+len\<close>, where \<open>currentMinMaxOfRange\<close> is the maximum of
  \<open>U[i..textPos+len]\<close> starting from 0, and stops, without a call, at the first \<open>i\<close> with
  \<open>maxStrDepth[i] < textPos\<close> (or after \<open>i = 1\<close>). The positions \<open>1..textPos+len\<close> are
  inside the arrays and their \<open>maxStrDepth\<close> cells have been written.
\<close>

theorem propagateAnnotation_calls:
  assumes "tp + len < length (costArray t)" and "tp + len < length (maxStrDepth t)"
    and "list_all (\<lambda>i. maxStrDepth t ! i \<noteq> None) [1..<Suc (tp + len)]"
  shows "propagateAnnotation fuel tp len t = run_calls fuel (spec_calls t tp len) t"
proof -
  from assms(3) have "\<forall>j. 1 \<le> j \<and> j \<le> tp + len \<longrightarrow> maxStrDepth t ! j \<noteq> None"
    by (auto simp: list_all_iff)
  from propagate_loop_calls [OF refl refl assms(1,2) this, of fuel tp len 0]
  show ?thesis
    by (simp add: propagateAnnotation_def spec_calls_def spec_positions_def range_max_def
        del: upt_Suc)
qed

theorem propagateAnnotation_calls_witness:
  "parse_update state_abbb_2 \<lparr>mlength = 2, mpos = 2\<rparr> = Inr (tree_abbb_costs, 4) \<and>
   3 + 2 < length (costArray tree_abbb_costs) \<and>
   3 + 2 < length (maxStrDepth tree_abbb_costs) \<and>
   list_all (\<lambda>i. maxStrDepth tree_abbb_costs ! i \<noteq> None) [1..<Suc (3 + 2)] \<and>
   spec_calls tree_abbb_costs 3 2 = [(5, 5, - 2, 0), (4, 5, - 1, 1), (3, 5, 0, 1), (2, 5, 1, 1)] \<and>
   propagateAnnotation fuel12 3 2 tree_abbb_costs =
     run_calls fuel12 [(5, 5, - 2, 0), (4, 5, - 1, 1), (3, 5, 0, 1), (2, 5, 1, 1)]
       tree_abbb_costs \<and>
   propagateAnnotation fuel12 3 2 tree_abbb_costs = Inr tree_abbb"
proof -
  have u: "parse_update state_abbb_2 \<lparr>mlength = 2, mpos = 2\<rparr> = Inr (tree_abbb_costs, 4)"
    by (simp add: eval_rules state_abbb_2_def tree_abbb_costs_def cong: ebind_weak_cong)
  have a: "3 + 2 < length (costArray tree_abbb_costs)"
    by (simp add: tree_abbb_costs_def)
  have b: "3 + 2 < length (maxStrDepth tree_abbb_costs)"
    by (simp add: tree_abbb_costs_def state_abbb_2_def)
  have c: "list_all (\<lambda>i. maxStrDepth tree_abbb_costs ! i \<noteq> None) [1..<Suc (3 + 2)]"
    by (simp add: tree_abbb_costs_def state_abbb_2_def upt_conv_Cons)
  have d: "spec_calls tree_abbb_costs 3 2 =
             [(5, 5, - 2, 0), (4, 5, - 1, 1), (3, 5, 0, 1), (2, 5, 1, 1)]"
    by (simp add: spec_calls_def spec_positions_def range_max_def tree_abbb_costs_def
        state_abbb_2_def upt_conv_Cons)
  have e: "propagateAnnotation fuel12 3 2 tree_abbb_costs = Inr tree_abbb"
    by (simp add: eval_rules state_abbb_2_def tree_abbb_costs_def tree_abbb_def
        cong: ebind_weak_cong)
  from propagateAnnotation_calls [OF a b c, of fuel12] u a b c d e show ?thesis
    by simp
qed

subsection \<open>The candidate cost of an ancestor\<close>













subsection \<open>The order of the two estimates\<close>

definition ordered :: "NODE \<Rightarrow> bool" where
  "ordered n \<longleftrightarrow> optimisticMinMax (annot n) \<le> minMax (annot n)"

text \<open>
  C9. The order \<open>optimisticMinMax \<le> minMax\<close> of the two estimates of a node, with the unset
  value \<open>2^32 - 1\<close> as the largest one, is broken by a call of \<^verbatim>\<open>changeAnnotationFromLeaf\<close>. In
  the third iteration on \<open>aababab\<close> with cost bound 1 the propagation starts from
  \<open>tree_aababab_u\<close>; after its first call every node of the tree is ordered; its second
  call, \<^verbatim>\<open>changeAnnotationFromLeaf(4, 5, 0, 1)\<close>, leaves the node 10, which is the right
  sibling of the first son 2 of the first son 3 of the root, with \<open>minMax = 1\<close> and
  \<open>optimisticMinMax\<close> unset; the node is still so when the iteration ends.
\<close>

theorem estimates_not_ordered:
  "main_steps fuel12 (Suc (Suc 0))
     \<lparr>argc = 3, input_file = Some [1, 1, 2, 1, 2, 1, 2], maxc = 1, heap = 100, memory = junk\<rparr> =
     Inr state_aababab_2 \<and>
   ST_FindSubstring fuel12 (ptree state_aababab_2)
     (drop (ptextPos state_aababab_2 - 1) (tree_string (ptree state_aababab_2)))
     (length_t (ptree state_aababab_2)) = Inr \<lparr>mlength = 1, mpos = 1\<rparr> \<and>
   parse_update state_aababab_2 \<lparr>mlength = 1, mpos = 1\<rparr> = Inr (tree_aababab_u, 4) \<and>
   propagateAnnotation fuel12 4 1 tree_aababab_u =
     propagate_loop fuel12 4 1 tree_aababab_b 1 3 \<and>
   changeAnnotationFromLeaf fuel12 5 5 (- 1) 0 tree_aababab_u = Inr tree_aababab_a \<and>
   list_all ordered (nodes tree_aababab_a) \<and>
   changeAnnotationFromLeaf fuel12 4 5 0 1 tree_aababab_a = Inr tree_aababab_b \<and>
   sons (nodes tree_aababab_b ! root tree_aababab_b) = 3 \<and>
   sons (nodes tree_aababab_b ! 3) = 2 \<and>
   right_sibling (nodes tree_aababab_b ! 2) = 10 \<and>
   minMax (annot (nodes tree_aababab_b ! 10)) = 1 \<and>
   optimisticMinMax (annot (nodes tree_aababab_b ! 10)) = UNSET \<and>
   \<not> ordered (nodes tree_aababab_b ! 10) \<and>
   main_steps fuel12 (Suc (Suc (Suc 0)))
     \<lparr>argc = 3, input_file = Some [1, 1, 2, 1, 2, 1, 2], maxc = 1, heap = 100, memory = junk\<rparr> =
     Inr state_aababab_3 \<and>
   \<not> ordered (nodes (ptree state_aababab_3) ! 10)"
proof -
  have a: "list_all ordered (nodes tree_aababab_a)"
    by (simp add: eval_rules ordered_def set_node_def tree_aababab_a_def tree_aababab_u_def
        state_aababab_2_def)
  have b: "sons (nodes tree_aababab_b ! root tree_aababab_b) = 3"
    "sons (nodes tree_aababab_b ! 3) = 2"
    "right_sibling (nodes tree_aababab_b ! 2) = 10"
    "minMax (annot (nodes tree_aababab_b ! 10)) = 1"
    "optimisticMinMax (annot (nodes tree_aababab_b ! 10)) = UNSET"
    by (simp_all add: eval_rules set_node_def tree_aababab_b_def tree_aababab_a_def
        tree_aababab_u_def state_aababab_2_def)
  then have c: "\<not> ordered (nodes tree_aababab_b ! 10)"
    by (simp add: ordered_def UNSET_def)
  have d: "\<not> ordered (nodes (ptree state_aababab_3) ! 10)"
    by (simp add: eval_rules ordered_def state_aababab_3_def)
  from reach_aababab_2 query_aababab_3 update_aababab_3 calls_aababab call_aababab_a a
    call_aababab_b b c reach_aababab_3 d
  show ?thesis
    by (simp only: simp_thms)
qed

end
